theory Spec2Isabelle
  imports Main
begin

section \<open>Readers-writers locks: the bookkeeping of each policy\<close>

text \<open>
  Every lock class of the repository keeps its counters and flags behind one
  bookkeeping mutex (\<open>mtx\<close>, \<open>monitor_mutex\<close>).  A method is modelled as the
  function that its statements compute on those fields between acquiring and
  releasing that mutex.  A method that can suspend the caller is split at the
  suspension point: the part before the wait, and the part that runs once the
  wait predicate is found true (result \<open>None\<close>: the predicate is false at this
  evaluation and the caller stays suspended, the fields untouched).

  What a method does besides updating the fields is returned as a list of
  effects in program order: signals on condition variables and the calls of
  \<open>resource_mutex.lock()\<close> and \<open>resource_mutex.unlock()\<close>.

  The C++ counters are \<open>int\<close>; they are modelled as unbounded integers.  In
  C++ an increment at \<open>INT_MAX\<close> and a decrement at \<open>INT_MIN\<close> are undefined;
  they have no counterpart here, and what is stated of the value that an
  update gives a counter is stated for the counts it keeps in range.
\<close>

type_synonym tid = nat



datatype condvar =
    Write_cv          \<comment> \<open>\<open>write_cv\<close> of readers_writers.cpp and of the monitor\<close>
  | Cv                \<comment> \<open>\<open>cv\<close> of readers_writers_educational.cpp\<close>
  | Reader_cv         \<comment> \<open>\<open>reader_cv\<close> of readers_writers_readers_priority.cpp\<close>
  | Writer_cv         \<comment> \<open>\<open>writer_cv\<close> of readers_writers_readers_priority.cpp\<close>
  | Read_cv           \<comment> \<open>\<open>read_cv\<close> of the monitor\<close>
  | Request_cv nat    \<comment> \<open>the \<open>cv\<close> of one \<open>Request\<close> object of the fair lock\<close>

datatype effect =
    Notify_one condvar
  | Notify_all condvar
  | Resource_lock
  | Resource_unlock

text \<open>
  \<open>cv.wait(lock, pred)\<close> and the loops \<open>while (!pred) cv.wait(lock)\<close>: the
  caller evaluates its predicate each time it holds the bookkeeping mutex, at
  entry and after every wake-up.  \<open>await attempt obs\<close> runs the guarded part
  \<open>attempt\<close> on the successive states \<open>obs\<close> the caller finds and returns the
  result at the first one where the guard holds; \<open>None\<close> when it holds at none
  of them (the caller is still suspended).
\<close>

fun await :: "('s \<Rightarrow> 'r option) \<Rightarrow> 's list \<Rightarrow> 'r option" where
  "await attempt [] = None"
| "await attempt (s # obs) =
     (case attempt s of Some r \<Rightarrow> Some r | None \<Rightarrow> await attempt obs)"

subsection \<open>readers_writers_readers_priority.cpp: \<open>ReadersWriterLock\<close>\<close>

record rp_lock =
  reader_count :: int
  writer_active :: bool

definition rp_init :: rp_lock where
  "rp_init = \<lparr>reader_count = 0, writer_active = False\<rparr>"

definition rp_read_lock :: "rp_lock \<Rightarrow> (rp_lock \<times> effect list) option" where
  "rp_read_lock s =
     (if \<not> writer_active s then
        let s' = s\<lparr>reader_count := reader_count s + 1\<rparr>
        in Some (s', if reader_count s' = 1 then [Resource_lock] else [])
      else None)"

definition rp_read_unlock :: "rp_lock \<Rightarrow> rp_lock \<times> effect list" where
  "rp_read_unlock s =
     (let s' = s\<lparr>reader_count := reader_count s - 1\<rparr>
      in (s', if reader_count s' = 0
              then [Resource_unlock, Notify_one Writer_cv] else []))"

definition rp_write_lock :: "rp_lock \<Rightarrow> (rp_lock \<times> effect list) option" where
  "rp_write_lock s =
     (if reader_count s = 0 \<and> \<not> writer_active s
      then Some (s\<lparr>writer_active := True\<rparr>, [Resource_lock])
      else None)"

definition rp_write_unlock :: "rp_lock \<Rightarrow> rp_lock \<times> effect list" where
  "rp_write_unlock s =
     (s\<lparr>writer_active := False\<rparr>,
      [Resource_unlock, Notify_all Reader_cv, Notify_one Writer_cv])"

subsection \<open>readers_writers.cpp: \<open>ReadersWriterLock\<close>\<close>

record wp_lock = rp_lock +
  waiting_writers :: int

definition wp_init :: wp_lock where
  "wp_init = \<lparr>reader_count = 0, writer_active = False, waiting_writers = 0\<rparr>"

definition wp_read_lock :: "wp_lock \<Rightarrow> (wp_lock \<times> effect list) option" where
  "wp_read_lock s =
     (if \<not> writer_active s \<and> waiting_writers s = 0 then
        let s' = s\<lparr>reader_count := reader_count s + 1\<rparr>
        in Some (s', if reader_count s' = 1 then [Resource_lock] else [])
      else None)"

definition wp_read_unlock :: "wp_lock \<Rightarrow> wp_lock \<times> effect list" where
  "wp_read_unlock s =
     (let s' = s\<lparr>reader_count := reader_count s - 1\<rparr>
      in (s', if reader_count s' = 0
              then [Resource_unlock, Notify_all Write_cv] else []))"

text \<open>\<open>write_lock\<close>, up to the wait: \<open>waiting_writers++\<close>.\<close>

definition wp_write_lock_enter :: "wp_lock \<Rightarrow> wp_lock" where
  "wp_write_lock_enter s = s\<lparr>waiting_writers := waiting_writers s + 1\<rparr>"

text \<open>\<open>write_lock\<close>, from the wait on.\<close>

definition wp_write_lock_admit :: "wp_lock \<Rightarrow> (wp_lock \<times> effect list) option" where
  "wp_write_lock_admit s =
     (if reader_count s = 0 \<and> \<not> writer_active s
      then Some (s\<lparr>writer_active := True, waiting_writers := waiting_writers s - 1\<rparr>,
                 [Resource_lock])
      else None)"

definition wp_write_unlock :: "wp_lock \<Rightarrow> wp_lock \<times> effect list" where
  "wp_write_unlock s =
     (s\<lparr>writer_active := False\<rparr>, [Resource_unlock, Notify_all Write_cv])"

text \<open>
  A whole call: the states the caller finds at its successive evaluations of
  the predicate are \<open>obs\<close>.  A writer has counted itself as waiting before its
  first evaluation.
\<close>

definition wp_read_lock_call :: "wp_lock list \<Rightarrow> (wp_lock \<times> effect list) option" where
  "wp_read_lock_call obs = await wp_read_lock obs"

definition wp_write_lock_call ::
    "wp_lock \<Rightarrow> wp_lock list \<Rightarrow> (wp_lock \<times> effect list) option" where
  "wp_write_lock_call s obs = await wp_write_lock_admit (wp_write_lock_enter s # obs)"

subsection \<open>readers_writers_educational.cpp: \<open>ReadersWriterLock\<close>\<close>

text \<open>Same fields as readers_writers.cpp; there is no \<open>resource_mutex\<close>.\<close>

definition edu_read_lock :: "wp_lock \<Rightarrow> (wp_lock \<times> effect list) option" where
  "edu_read_lock s =
     (if \<not> writer_active s \<and> waiting_writers s = 0
      then Some (s\<lparr>reader_count := reader_count s + 1\<rparr>, [])
      else None)"

definition edu_read_unlock :: "wp_lock \<Rightarrow> wp_lock \<times> effect list" where
  "edu_read_unlock s =
     (let s' = s\<lparr>reader_count := reader_count s - 1\<rparr>
      in (s', if reader_count s' = 0 \<and> waiting_writers s' > 0
              then [Notify_all Cv] else []))"

definition edu_write_lock_enter :: "wp_lock \<Rightarrow> wp_lock" where
  "edu_write_lock_enter s = s\<lparr>waiting_writers := waiting_writers s + 1\<rparr>"

definition edu_write_lock_admit :: "wp_lock \<Rightarrow> (wp_lock \<times> effect list) option" where
  "edu_write_lock_admit s =
     (if reader_count s = 0 \<and> \<not> writer_active s
      then Some (s\<lparr>waiting_writers := waiting_writers s - 1, writer_active := True\<rparr>, [])
      else None)"

definition edu_write_unlock :: "wp_lock \<Rightarrow> wp_lock \<times> effect list" where
  "edu_write_unlock s = (s\<lparr>writer_active := False\<rparr>, [Notify_all Cv])"

subsection \<open>readers_writers_monitor.cpp: \<open>ReadersWriterMonitor\<close>\<close>

record monitor = wp_lock +
  waiting_readers :: int

definition monitor_init :: monitor where
  "monitor_init =
     \<lparr>reader_count = 0, writer_active = False, waiting_writers = 0, waiting_readers = 0\<rparr>"

definition start_read_enter :: "monitor \<Rightarrow> monitor" where
  "start_read_enter s = s\<lparr>waiting_readers := waiting_readers s + 1\<rparr>"

text \<open>The loop \<open>while (writer_active || waiting_writers > 0)\<close> is left when its
  condition is false.\<close>

definition start_read_admit :: "monitor \<Rightarrow> (monitor \<times> effect list) option" where
  "start_read_admit s =
     (if writer_active s \<or> waiting_writers s > 0 then None
      else Some (s\<lparr>waiting_readers := waiting_readers s - 1,
                   reader_count := reader_count s + 1\<rparr>,
                 [Notify_one Read_cv]))"

definition end_read :: "monitor \<Rightarrow> monitor \<times> effect list" where
  "end_read s =
     (let s' = s\<lparr>reader_count := reader_count s - 1\<rparr>
      in (s', if reader_count s' = 0 \<and> waiting_writers s' > 0
              then [Notify_one Write_cv] else []))"

definition start_write_enter :: "monitor \<Rightarrow> monitor" where
  "start_write_enter s = s\<lparr>waiting_writers := waiting_writers s + 1\<rparr>"

definition start_write_admit :: "monitor \<Rightarrow> (monitor \<times> effect list) option" where
  "start_write_admit s =
     (if reader_count s > 0 \<or> writer_active s then None
      else Some (s\<lparr>waiting_writers := waiting_writers s - 1, writer_active := True\<rparr>, []))"

definition end_write :: "monitor \<Rightarrow> monitor \<times> effect list" where
  "end_write s =
     (let s' = s\<lparr>writer_active := False\<rparr>
      in (s', if waiting_writers s' > 0 then [Notify_one Write_cv]
              else if waiting_readers s' > 0 then [Notify_all Read_cv]
              else []))"

text \<open>\<open>get_state\<close> writes four \<open>int\<close> references; the monitor it leaves behind is
  returned beside them.\<close>

definition get_state :: "monitor \<Rightarrow> (int \<times> int \<times> int \<times> int) \<times> monitor" where
  "get_state s =
     ((reader_count s, (if writer_active s then 1 else 0),
       waiting_readers s, waiting_writers s), s)"

subsection \<open>readers_writers_fair.cpp: \<open>FairReadersWriterLock\<close>\<close>

text \<open>
  A \<open>Request\<close> object is created by \<open>make_shared\<close> in \<open>read_lock\<close> or \<open>write_lock\<close>
  and shared between the queue and the creating thread.  The objects are
  numbered in the order of their creation (\<open>next_request\<close> is the number the
  next one gets); \<open>cv\<close> is that number, standing for the object and its own
  condition variable.  A request in the queue has \<open>granted = false\<close>; the
  assignment \<open>granted = true\<close> happens right after the pop, and \<open>granted\<close> of the
  lock lists the requests that have received it, in the order of the
  assignments.
\<close>

datatype request_type = READ | WRITE

record request =
  type :: request_type
  cv :: nat

record fair_lock =
  request_queue :: "request list"
  active_readers :: int
  writer_active_fair :: bool
  granted :: "nat list"
  next_request :: nat

definition fair_init :: fair_lock where
  "fair_init = \<lparr>request_queue = [], active_readers = 0, writer_active_fair = False,
                 granted = [], next_request = 0\<rparr>"

text \<open>The inner loop of \<open>process_queue\<close>:
  \<open>while (!request_queue.empty() && request_queue.front()->type == READ)\<close>.\<close>

function grant_following_reads :: "fair_lock \<times> effect list \<Rightarrow> fair_lock \<times> effect list" where
  "grant_following_reads (s, es) =
     (if request_queue s \<noteq> [] \<and> type (hd (request_queue s)) = READ then
        let next_read = hd (request_queue s)
        in grant_following_reads
             (s\<lparr>request_queue := tl (request_queue s),
                active_readers := active_readers s + 1,
                granted := granted s @ [cv next_read]\<rparr>,
              es @ [Notify_one (Request_cv (cv next_read))])
      else (s, es))"
  by pat_completeness auto
termination
  by (relation "measure (\<lambda>(s, es). length (request_queue s))") auto

declare grant_following_reads.simps [simp del]

definition process_queue :: "fair_lock \<Rightarrow> fair_lock \<times> effect list" where
  "process_queue s =
     (if request_queue s = [] then (s, [])
      else
        let request = hd (request_queue s) in
        if type request = READ then
          (if \<not> writer_active_fair s then
             grant_following_reads
               (s\<lparr>request_queue := tl (request_queue s),
                  active_readers := active_readers s + 1,
                  granted := granted s @ [cv request]\<rparr>,
                [Notify_one (Request_cv (cv request))])
           else (s, []))
        else
          (if active_readers s = 0 \<and> \<not> writer_active_fair s then
             (s\<lparr>request_queue := tl (request_queue s),
                writer_active_fair := True,
                granted := granted s @ [cv request]\<rparr>,
              [Notify_one (Request_cv (cv request))])
           else (s, [])))"

text \<open>\<open>make_shared<Request>(t)\<close> followed by \<open>request_queue.push(request)\<close>.\<close>

definition push_request :: "request_type \<Rightarrow> fair_lock \<Rightarrow> fair_lock" where
  "push_request t s =
     s\<lparr>request_queue := request_queue s @ [\<lparr>type = t, cv = next_request s\<rparr>],
       next_request := next_request s + 1\<rparr>"

text \<open>\<open>read_lock\<close> and \<open>write_lock\<close> up to their wait loops.  The request made
  by the call is number \<open>next_request s\<close>.\<close>

definition fair_read_lock_enter :: "fair_lock \<Rightarrow> fair_lock \<times> effect list" where
  "fair_read_lock_enter s = process_queue (push_request READ s)"

definition fair_write_lock_enter :: "fair_lock \<Rightarrow> fair_lock \<times> effect list" where
  "fair_write_lock_enter s = process_queue (push_request WRITE s)"

text \<open>The loops \<open>while (!request->granted)\<close> are left once the request is
  granted.  \<open>read_lock\<close> then returns; \<open>write_lock\<close> goes on to
  \<open>resource_mutex.lock()\<close>.\<close>

definition fair_read_lock_admit :: "nat \<Rightarrow> fair_lock \<Rightarrow> (fair_lock \<times> effect list) option" where
  "fair_read_lock_admit r s = (if r \<in> set (granted s) then Some (s, []) else None)"

definition fair_write_lock_admit :: "nat \<Rightarrow> fair_lock \<Rightarrow> (fair_lock \<times> effect list) option" where
  "fair_write_lock_admit r s =
     (if r \<in> set (granted s) then Some (s, [Resource_lock]) else None)"

definition fair_read_unlock :: "fair_lock \<Rightarrow> fair_lock \<times> effect list" where
  "fair_read_unlock s =
     (let s1 = s\<lparr>active_readers := active_readers s - 1\<rparr>;
          es = (if active_readers s1 = 0 then [Resource_unlock] else []);
          (s2, ns) = process_queue s1
      in (s2, es @ ns))"

definition fair_write_unlock :: "fair_lock \<Rightarrow> fair_lock \<times> effect list" where
  "fair_write_unlock s =
     (let s1 = s\<lparr>writer_active_fair := False\<rparr>;
          (s2, ns) = process_queue s1
      in (s2, Resource_unlock # ns))"

definition queue_size :: "fair_lock \<Rightarrow> nat \<times> fair_lock" where
  "queue_size s = (length (request_queue s), s)"

definition is_read :: "request \<Rightarrow> bool" where
  "is_read r = (type r = READ)"

subsection \<open>readers_writers_semaphore.cpp: \<open>ReadersWriterSemaphore\<close>\<close>

text \<open>
  A \<open>sem_t\<close> is its counter, at most \<open>SEM_VALUE_MAX\<close> (the value of glibc on
  Linux is taken).  \<open>sem_wait\<close> on a counter that is \<open>0\<close> suspends the caller;
  otherwise it decrements.  \<open>sem_post\<close> increments; on a counter that is at
  \<open>SEM_VALUE_MAX\<close> it fails with \<open>EOVERFLOW\<close> and leaves the counter, and the
  class ignores its result.  A post that follows the caller's own wait on the
  same semaphore finds the counter below the maximum and is written as \<open>+ 1\<close>.
\<close>

definition SEM_VALUE_MAX :: nat where
  "SEM_VALUE_MAX = 2147483647"

definition sem_post :: "nat \<Rightarrow> nat" where
  "sem_post v = (if v < SEM_VALUE_MAX then v + 1 else v)"

record semaphore_lock =
  mutex :: nat
  write_mutex :: nat
  read_mutex :: nat
  reader_count_sem :: int
  writer_waiting :: bool

definition semaphore_init :: semaphore_lock where
  "semaphore_init = \<lparr>mutex = 1, write_mutex = 1, read_mutex = 1,
                      reader_count_sem = 0, writer_waiting = False\<rparr>"

text \<open>
  One execution of the body of \<open>reader_lock\<close> up to the test that decides on the
  retry.  \<open>Suspended\<close>: the caller is held in a \<open>sem_wait\<close>, with the lock as it
  is at that point.  \<open>Entered\<close>: \<open>should_wait\<close> was false, the call returns.
  \<open>Try_again\<close>: \<open>should_wait\<close> was true, the caller yields, sleeps and calls
  \<open>reader_lock\<close> again.
\<close>

datatype pass = Suspended semaphore_lock | Entered semaphore_lock | Try_again semaphore_lock

definition reader_lock_pass :: "semaphore_lock \<Rightarrow> pass" where
  "reader_lock_pass s =
     (if read_mutex s = 0 then Suspended s else
      let s1 = s\<lparr>read_mutex := read_mutex s - 1\<rparr> in
      if mutex s1 = 0 then Suspended s1 else
      let s2 = s1\<lparr>mutex := mutex s1 - 1\<rparr>;
          should_wait = writer_waiting s2 in
      if \<not> should_wait then
        let s3 = s2\<lparr>reader_count_sem := reader_count_sem s2 + 1\<rparr> in
        if reader_count_sem s3 = 1 then
          (if write_mutex s3 = 0 then Suspended s3 else
           let s4 = s3\<lparr>write_mutex := write_mutex s3 - 1\<rparr>
           in Entered (s4\<lparr>mutex := mutex s4 + 1, read_mutex := read_mutex s4 + 1\<rparr>))
        else Entered (s3\<lparr>mutex := mutex s3 + 1, read_mutex := read_mutex s3 + 1\<rparr>)
      else Try_again (s2\<lparr>mutex := mutex s2 + 1, read_mutex := read_mutex s2 + 1\<rparr>))"

text \<open>
  \<open>reader_lock\<close> with its self-call.  \<open>n\<close> counts the retries made so far, and
  \<open>sleep n\<close> is what the other threads do to the lock while the caller yields
  and sleeps for the \<open>n\<close>-th time.  The result names how the call ends and after
  how many retries; \<open>None\<close>: the chain of self-calls never ends.
\<close>

datatype outcome = Acquired semaphore_lock nat | Blocked semaphore_lock nat

partial_function (option) reader_lock ::
    "(nat \<Rightarrow> semaphore_lock \<Rightarrow> semaphore_lock) \<Rightarrow> nat \<Rightarrow> semaphore_lock \<Rightarrow> outcome option" where
  "reader_lock sleep n s =
     (case reader_lock_pass s of
        Entered s' \<Rightarrow> Some (Acquired s' n)
      | Suspended s' \<Rightarrow> Some (Blocked s' n)
      | Try_again s' \<Rightarrow> reader_lock sleep (Suc n) (sleep n s'))"

text \<open>The lock as the caller finds it at the start of its \<open>k\<close>-th further pass,
  when every pass before asks for a retry.\<close>

fun seen ::
    "(nat \<Rightarrow> semaphore_lock \<Rightarrow> semaphore_lock) \<Rightarrow> nat \<Rightarrow> semaphore_lock \<Rightarrow> nat \<Rightarrow> semaphore_lock" where
  "seen sleep n s 0 = s"
| "seen sleep n s (Suc k) = seen sleep (Suc n) (sleep n s) k"


text \<open>\<open>writer_lock\<close> has three places where it can be suspended; its three
  parts, each \<open>None\<close> while its \<open>sem_wait\<close> finds the counter at \<open>0\<close>.\<close>

definition writer_lock_announce :: "semaphore_lock \<Rightarrow> semaphore_lock option" where
  "writer_lock_announce s =
     (if mutex s = 0 then None else
      let s1 = s\<lparr>mutex := mutex s - 1\<rparr>;
          s2 = s1\<lparr>writer_waiting := True\<rparr>
      in Some (s2\<lparr>mutex := mutex s2 + 1\<rparr>))"

definition writer_lock_acquire :: "semaphore_lock \<Rightarrow> semaphore_lock option" where
  "writer_lock_acquire s =
     (if write_mutex s = 0 then None
      else Some (s\<lparr>write_mutex := write_mutex s - 1\<rparr>))"

definition writer_lock_reset :: "semaphore_lock \<Rightarrow> semaphore_lock option" where
  "writer_lock_reset s =
     (if mutex s = 0 then None else
      let s1 = s\<lparr>mutex := mutex s - 1\<rparr>;
          s2 = s1\<lparr>writer_waiting := False\<rparr>
      in Some (s2\<lparr>mutex := mutex s2 + 1\<rparr>))"

definition writer_unlock :: "semaphore_lock \<Rightarrow> semaphore_lock" where
  "writer_unlock s = s\<lparr>write_mutex := sem_post (write_mutex s)\<rparr>"

text \<open>What a writer that has announced itself does to the lock from there to
  the end of its \<open>writer_unlock\<close>, when nothing suspends it.\<close>

definition writer_session :: "semaphore_lock \<Rightarrow> semaphore_lock option" where
  "writer_session s =
     (case writer_lock_acquire s of
        None \<Rightarrow> None
      | Some s1 \<Rightarrow> map_option writer_unlock (writer_lock_reset s1))"

section \<open>The engines as transition systems\<close>

text \<open>
  The five classes that keep a reader count and a \<open>writer_active\<close> flag, under
  the names the specification gives their policies.  A transition is one
  of the parts above; \<open>None\<close> when the part is guarded and its guard is false.
  The semaphore class and the \<open>std::shared_mutex\<close> wrapper keep no
  \<open>writer_active\<close> flag.
\<close>

datatype engine =
    WriterPreference wp_lock
  | WriterPreferenceEducational wp_lock
  | ReaderPreference rp_lock
  | FIFOFair fair_lock
  | MonitorStyle monitor

datatype transition =
    Arrive_read | Admit_read | Release_read
  | Arrive_write | Admit_write | Release_write

fun step :: "engine \<Rightarrow> transition \<Rightarrow> engine option" where
  "step (WriterPreference s) Arrive_read = Some (WriterPreference s)"
| "step (WriterPreference s) Admit_read =
     map_option (\<lambda>r. WriterPreference (fst r)) (wp_read_lock s)"
| "step (WriterPreference s) Release_read = Some (WriterPreference (fst (wp_read_unlock s)))"
| "step (WriterPreference s) Arrive_write = Some (WriterPreference (wp_write_lock_enter s))"
| "step (WriterPreference s) Admit_write =
     map_option (\<lambda>r. WriterPreference (fst r)) (wp_write_lock_admit s)"
| "step (WriterPreference s) Release_write = Some (WriterPreference (fst (wp_write_unlock s)))"
| "step (WriterPreferenceEducational s) Arrive_read = Some (WriterPreferenceEducational s)"
| "step (WriterPreferenceEducational s) Admit_read =
     map_option (\<lambda>r. WriterPreferenceEducational (fst r)) (edu_read_lock s)"
| "step (WriterPreferenceEducational s) Release_read =
     Some (WriterPreferenceEducational (fst (edu_read_unlock s)))"
| "step (WriterPreferenceEducational s) Arrive_write =
     Some (WriterPreferenceEducational (edu_write_lock_enter s))"
| "step (WriterPreferenceEducational s) Admit_write =
     map_option (\<lambda>r. WriterPreferenceEducational (fst r)) (edu_write_lock_admit s)"
| "step (WriterPreferenceEducational s) Release_write =
     Some (WriterPreferenceEducational (fst (edu_write_unlock s)))"
| "step (ReaderPreference s) Arrive_read = Some (ReaderPreference s)"
| "step (ReaderPreference s) Admit_read =
     map_option (\<lambda>r. ReaderPreference (fst r)) (rp_read_lock s)"
| "step (ReaderPreference s) Release_read = Some (ReaderPreference (fst (rp_read_unlock s)))"
| "step (ReaderPreference s) Arrive_write = Some (ReaderPreference s)"
| "step (ReaderPreference s) Admit_write =
     map_option (\<lambda>r. ReaderPreference (fst r)) (rp_write_lock s)"
| "step (ReaderPreference s) Release_write = Some (ReaderPreference (fst (rp_write_unlock s)))"
| "step (FIFOFair s) Arrive_read = Some (FIFOFair (fst (fair_read_lock_enter s)))"
| "step (FIFOFair s) Admit_read = Some (FIFOFair s)"
| "step (FIFOFair s) Release_read = Some (FIFOFair (fst (fair_read_unlock s)))"
| "step (FIFOFair s) Arrive_write = Some (FIFOFair (fst (fair_write_lock_enter s)))"
| "step (FIFOFair s) Admit_write = Some (FIFOFair s)"
| "step (FIFOFair s) Release_write = Some (FIFOFair (fst (fair_write_unlock s)))"
| "step (MonitorStyle s) Arrive_read = Some (MonitorStyle (start_read_enter s))"
| "step (MonitorStyle s) Admit_read =
     map_option (\<lambda>r. MonitorStyle (fst r)) (start_read_admit s)"
| "step (MonitorStyle s) Release_read = Some (MonitorStyle (fst (end_read s)))"
| "step (MonitorStyle s) Arrive_write = Some (MonitorStyle (start_write_enter s))"
| "step (MonitorStyle s) Admit_write =
     map_option (\<lambda>r. MonitorStyle (fst r)) (start_write_admit s)"
| "step (MonitorStyle s) Release_write = Some (MonitorStyle (fst (end_write s)))"

fun run :: "engine \<Rightarrow> transition list \<Rightarrow> engine option" where
  "run e [] = Some e"
| "run e (t # ts) = (case step e t of None \<Rightarrow> None | Some e' \<Rightarrow> run e' ts)"

definition engines :: "engine list" where
  "engines = [WriterPreference wp_init, WriterPreferenceEducational wp_init,
              ReaderPreference rp_init, FIFOFair fair_init, MonitorStyle monitor_init]"

text \<open>\<open>NOT (writer_active AND active_readers > 0)\<close> on the fields of each class.\<close>

fun exclusive :: "engine \<Rightarrow> bool" where
  "exclusive (WriterPreference s) = (\<not> (writer_active s \<and> reader_count s > 0))"
| "exclusive (WriterPreferenceEducational s) = (\<not> (writer_active s \<and> reader_count s > 0))"
| "exclusive (ReaderPreference s) = (\<not> (writer_active s \<and> reader_count s > 0))"
| "exclusive (FIFOFair s) = (\<not> (writer_active_fair s \<and> active_readers s > 0))"
| "exclusive (MonitorStyle s) = (\<not> (writer_active s \<and> reader_count s > 0))"

section \<open>\<open>resource_mutex\<close>\<close>

text \<open>
  A \<open>std::mutex\<close> is either free or owned by one thread.  \<open>lock()\<close> by a thread
  that finds it owned by another suspends the caller; \<open>unlock()\<close> requires that
  the caller owns it, and so does not \<open>lock()\<close> by the owner: the behaviour is
  undefined otherwise.
\<close>

datatype mutex_state = Mutex "tid option" | Caller_suspended | Undefined_behaviour

fun perform :: "tid \<Rightarrow> mutex_state \<Rightarrow> effect \<Rightarrow> mutex_state" where
  "perform t (Mutex m) Resource_lock =
     (if m = None then Mutex (Some t)
      else if m = Some t then Undefined_behaviour else Caller_suspended)"
| "perform t (Mutex m) Resource_unlock =
     (if m = Some t then Mutex None else Undefined_behaviour)"
| "perform t (Mutex m) (Notify_one c) = Mutex m"
| "perform t (Mutex m) (Notify_all c) = Mutex m"
| "perform t Caller_suspended e = Caller_suspended"
| "perform t Undefined_behaviour e = Undefined_behaviour"

definition perform_all :: "tid \<Rightarrow> mutex_state \<Rightarrow> effect list \<Rightarrow> mutex_state" where
  "perform_all t m es = foldl (perform t) m es"

text \<open>Grants so far, then the queue, are the requests in order of creation.\<close>

definition arrival_order :: "fair_lock \<Rightarrow> bool" where
  "arrival_order s \<longleftrightarrow> granted s @ map cv (request_queue s) = [0..<next_request s]"

section \<open>Threads on the fair lock\<close>

text \<open>
  \<open>SharedResource::reader\<close> calls \<open>read_lock\<close>, reads and calls \<open>read_unlock\<close>;
  \<open>SharedResource::writer\<close> calls \<open>write_lock\<close>, writes and calls \<open>write_unlock\<close>.
  A thread that runs one of them is at one of these stages: outside any call;
  in the wait loop of \<open>read_lock\<close> or \<open>write_lock\<close> for the request it has made;
  between the two calls.
\<close>

datatype stage = Idle | Awaiting_read nat | Reading | Awaiting_write nat | Writing

text \<open>The fair lock, its \<open>resource_mutex\<close> and the stage of every thread.\<close>

record system =
  lock :: fair_lock
  resource_mutex :: mutex_state
  stage_of :: "tid \<Rightarrow> stage"

definition system_init :: system where
  "system_init = \<lparr>lock = fair_init, resource_mutex = Mutex None, stage_of = (\<lambda>t. Idle)\<rparr>"

text \<open>
  \<open>Reader t\<close>: the idle thread \<open>t\<close> enters \<open>reader\<close> and runs \<open>read_lock\<close> up to its
  wait loop; \<open>Writer t\<close> likewise for \<open>writer\<close> and \<open>write_lock\<close>.  \<open>Continue t\<close>:
  thread \<open>t\<close> takes its next step: it leaves a wait loop whose request is
  granted (a writer then locks \<open>resource_mutex\<close>), or it calls the unlock of
  its role.  A step performs the effects of the part it runs, as thread \<open>t\<close>,
  on \<open>resource_mutex\<close>.  There is no step for a thread that would be suspended,
  and none at all once the behaviour is undefined.
\<close>

datatype action = Reader tid | Writer tid | Continue tid

definition advance :: "system \<Rightarrow> tid \<Rightarrow> stage \<Rightarrow> fair_lock \<times> effect list \<Rightarrow> system option" where
  "advance sys t st r =
     (case perform_all t (resource_mutex sys) (snd r) of
        Caller_suspended \<Rightarrow> None
      | m \<Rightarrow> Some (sys\<lparr>lock := fst r, resource_mutex := m,
                       stage_of := (stage_of sys)(t := st)\<rparr>))"

definition system_step :: "system \<Rightarrow> action \<Rightarrow> system option" where
  "system_step sys a =
     (if resource_mutex sys = Undefined_behaviour then None else
      case a of
        Reader t \<Rightarrow>
          (if stage_of sys t = Idle
           then advance sys t (Awaiting_read (next_request (lock sys)))
                  (fair_read_lock_enter (lock sys))
           else None)
      | Writer t \<Rightarrow>
          (if stage_of sys t = Idle
           then advance sys t (Awaiting_write (next_request (lock sys)))
                  (fair_write_lock_enter (lock sys))
           else None)
      | Continue t \<Rightarrow>
          (case stage_of sys t of
             Idle \<Rightarrow> None
           | Awaiting_read r \<Rightarrow>
               (case fair_read_lock_admit r (lock sys) of
                  None \<Rightarrow> None | Some x \<Rightarrow> advance sys t Reading x)
           | Reading \<Rightarrow> advance sys t Idle (fair_read_unlock (lock sys))
           | Awaiting_write r \<Rightarrow>
               (case fair_write_lock_admit r (lock sys) of
                  None \<Rightarrow> None | Some x \<Rightarrow> advance sys t Writing x)
           | Writing \<Rightarrow> advance sys t Idle (fair_write_unlock (lock sys))))"

fun system_run :: "system \<Rightarrow> action list \<Rightarrow> system option" where
  "system_run sys [] = Some sys"
| "system_run sys (a # as) =
     (case system_step sys a of None \<Rightarrow> None | Some sys' \<Rightarrow> system_run sys' as)"

text \<open>
  The invariant of the executions.  A thread holds the write token when it is
  between \<open>write_lock\<close> and \<open>write_unlock\<close> or has its write request granted.
\<close>

definition write_token :: "fair_lock \<Rightarrow> (tid \<Rightarrow> stage) \<Rightarrow> tid \<Rightarrow> bool" where
  "write_token s st t \<longleftrightarrow>
     st t = Writing \<or> (\<exists>r. st t = Awaiting_write r \<and> r \<in> set (granted s))"

definition tokens_ok :: "fair_lock \<Rightarrow> (tid \<Rightarrow> stage) \<Rightarrow> bool" where
  "tokens_ok s st \<longleftrightarrow>
     \<not> (writer_active_fair s \<and> active_readers s > 0)
     \<and> arrival_order s
     \<and> (\<forall>t. write_token s st t \<longrightarrow> writer_active_fair s)
     \<and> (\<forall>t u. write_token s st t \<and> write_token s st u \<longrightarrow> t = u)
     \<and> (\<forall>t u r. st t = Awaiting_write r \<and> st u = Awaiting_write r \<longrightarrow> t = u)
     \<and> (\<forall>t r. st t = Awaiting_write r \<longrightarrow>
            r < next_request s
            \<and> (r \<notin> set (granted s) \<longrightarrow> \<lparr>type = WRITE, cv = r\<rparr> \<in> set (request_queue s)))"

definition consistent :: "system \<Rightarrow> bool" where
  "consistent sys \<longleftrightarrow>
     (resource_mutex sys \<noteq> Undefined_behaviour \<longrightarrow>
        resource_mutex sys \<noteq> Caller_suspended
      \<and> tokens_ok (lock sys) (stage_of sys)
      \<and> (\<forall>t. resource_mutex sys = Mutex (Some t) \<longrightarrow> stage_of sys t = Writing))"

section \<open>Threads on the locks with a condition variable and \<open>resource_mutex\<close>\<close>

text \<open>
  readers_writers.cpp and readers_writers_readers_priority.cpp have the same
  shape.  \<open>read_lock\<close> waits for its predicate and then, still holding \<open>mtx\<close>,
  updates the fields and locks \<open>resource_mutex\<close> if it is the first reader;
  \<open>read_unlock\<close> does all its work holding \<open>mtx\<close>.  \<open>write_lock\<close> updates the
  fields holding \<open>mtx\<close>, releases \<open>mtx\<close> and only then locks \<open>resource_mutex\<close>;
  \<open>write_unlock\<close> clears \<open>writer_active\<close> holding \<open>mtx\<close>, releases \<open>mtx\<close> and only
  then unlocks \<open>resource_mutex\<close> and signals.  The methods of a class:
\<close>

record 'l methods =
  read_lock_of :: "'l \<Rightarrow> ('l \<times> effect list) option"
  read_unlock_of :: "'l \<Rightarrow> 'l \<times> effect list"
  write_lock_enter_of :: "'l \<Rightarrow> 'l"
  write_lock_admit_of :: "'l \<Rightarrow> ('l \<times> effect list) option"
  write_unlock_of :: "'l \<Rightarrow> 'l \<times> effect list"

definition wp_methods :: "wp_lock methods" where
  "wp_methods =
     \<lparr>read_lock_of = wp_read_lock, read_unlock_of = wp_read_unlock,
      write_lock_enter_of = wp_write_lock_enter, write_lock_admit_of = wp_write_lock_admit,
      write_unlock_of = wp_write_unlock\<rparr>"

text \<open>\<open>write_lock\<close> of the readers-priority class does nothing before its wait.\<close>

definition rp_methods :: "rp_lock methods" where
  "rp_methods =
     \<lparr>read_lock_of = rp_read_lock, read_unlock_of = rp_read_unlock,
      write_lock_enter_of = (\<lambda>s. s), write_lock_admit_of = rp_write_lock,
      write_unlock_of = rp_write_unlock\<rparr>"

text \<open>
  Where a thread that runs \<open>reader\<close> or \<open>writer\<close> of \<open>SharedResource\<close> is: outside
  any call; in the wait of \<open>read_lock\<close>; between \<open>read_lock\<close> and \<open>read_unlock\<close>;
  in the wait of \<open>write_lock\<close>; in \<open>write_lock\<close> after \<open>mtx\<close> is released, with
  the effects it has still to perform; between \<open>write_lock\<close> and
  \<open>write_unlock\<close>; in \<open>write_unlock\<close> after \<open>mtx\<close> is released, with the effects
  it has still to perform.
\<close>

datatype place =
    Outside
  | Waiting_to_read
  | Has_read_access
  | Waiting_to_write
  | Admitted_to_write "effect list"
  | Has_write_access
  | Leaving_write "effect list"

record 'l threads =
  bookkeeping :: 'l
  resource :: mutex_state
  place_of :: "tid \<Rightarrow> place"

definition threads_init :: "'l \<Rightarrow> 'l threads" where
  "threads_init s = \<lparr>bookkeeping = s, resource = Mutex None, place_of = (\<lambda>t. Outside)\<rparr>"

text \<open>Thread \<open>t\<close> performs its effects on \<open>resource_mutex\<close> and goes to place \<open>pl\<close>;
  no step when it would be suspended in \<open>lock()\<close>.  (A reader suspended in
  \<open>lock()\<close> holds \<open>mtx\<close>, so what it has written is seen by no other thread
  before the mutex is free and its call goes on.)\<close>

definition within :: "'l threads \<Rightarrow> tid \<Rightarrow> place \<Rightarrow> 'l \<times> effect list \<Rightarrow> 'l threads option" where
  "within sys t pl x =
     (case perform_all t (resource sys) (snd x) of
        Caller_suspended \<Rightarrow> None
      | m \<Rightarrow> Some (sys\<lparr>bookkeeping := fst x, resource := m,
                       place_of := (place_of sys)(t := pl)\<rparr>))"

definition threads_step :: "'l methods \<Rightarrow> 'l threads \<Rightarrow> action \<Rightarrow> 'l threads option" where
  "threads_step c sys a =
     (if resource sys = Undefined_behaviour then None else
      case a of
        Reader t \<Rightarrow>
          (if place_of sys t = Outside
           then Some (sys\<lparr>place_of := (place_of sys)(t := Waiting_to_read)\<rparr>)
           else None)
      | Writer t \<Rightarrow>
          (if place_of sys t = Outside
           then Some (sys\<lparr>bookkeeping := write_lock_enter_of c (bookkeeping sys),
                          place_of := (place_of sys)(t := Waiting_to_write)\<rparr>)
           else None)
      | Continue t \<Rightarrow>
          (case place_of sys t of
             Outside \<Rightarrow> None
           | Waiting_to_read \<Rightarrow>
               (case read_lock_of c (bookkeeping sys) of
                  None \<Rightarrow> None | Some x \<Rightarrow> within sys t Has_read_access x)
           | Has_read_access \<Rightarrow> within sys t Outside (read_unlock_of c (bookkeeping sys))
           | Waiting_to_write \<Rightarrow>
               (case write_lock_admit_of c (bookkeeping sys) of
                  None \<Rightarrow> None
                | Some x \<Rightarrow>
                    Some (sys\<lparr>bookkeeping := fst x,
                              place_of := (place_of sys)(t := Admitted_to_write (snd x))\<rparr>))
           | Admitted_to_write es \<Rightarrow> within sys t Has_write_access (bookkeeping sys, es)
           | Has_write_access \<Rightarrow>
               (let x = write_unlock_of c (bookkeeping sys)
                in Some (sys\<lparr>bookkeeping := fst x,
                             place_of := (place_of sys)(t := Leaving_write (snd x))\<rparr>))
           | Leaving_write es \<Rightarrow> within sys t Outside (bookkeeping sys, es)))"

fun threads_run :: "'l methods \<Rightarrow> 'l threads \<Rightarrow> action list \<Rightarrow> 'l threads option" where
  "threads_run c sys [] = Some sys"
| "threads_run c sys (a # as) =
     (case threads_step c sys a of None \<Rightarrow> None | Some sys' \<Rightarrow> threads_run c sys' as)"

text \<open>The invariant of these executions: a thread from the return of
  \<open>write_lock\<close> to the unlock in \<open>write_unlock\<close> owns \<open>resource_mutex\<close>.\<close>

definition writers_own :: "'l threads \<Rightarrow> bool" where
  "writers_own sys \<longleftrightarrow>
     (resource sys \<noteq> Undefined_behaviour \<longrightarrow>
        resource sys \<noteq> Caller_suspended
      \<and> (\<forall>t. place_of sys t = Has_write_access \<or> (\<exists>es. place_of sys t = Leaving_write es) \<longrightarrow>
             resource sys = Mutex (Some t))
      \<and> (\<forall>t es. place_of sys t = Admitted_to_write es \<longrightarrow> es = [Resource_lock]))"

text \<open>The same for the threads on the fair lock.\<close>

definition fair_writers_own :: "system \<Rightarrow> bool" where
  "fair_writers_own sys \<longleftrightarrow>
     (resource_mutex sys \<noteq> Undefined_behaviour \<longrightarrow>
        resource_mutex sys \<noteq> Caller_suspended
      \<and> (\<forall>t. stage_of sys t = Writing \<longrightarrow> resource_mutex sys = Mutex (Some t)))"

text \<open>
  The readers of the two classes.  \<open>writer_place\<close>: the thread is in \<open>write_lock\<close>
  past its wait, between \<open>write_lock\<close> and \<open>write_unlock\<close>, or in \<open>write_unlock\<close>;
  \<open>raised_flag\<close>: it has set \<open>writer_active\<close> and not yet cleared it.  The
  invariant: \<open>reader_count\<close> is the number of threads between \<open>read_lock\<close> and
  \<open>read_unlock\<close>, and while there is one, \<open>resource_mutex\<close> is owned and no
  thread is at a writer place.
\<close>

fun writer_place :: "place \<Rightarrow> bool" where
  "writer_place (Admitted_to_write es) = True"
| "writer_place Has_write_access = True"
| "writer_place (Leaving_write es) = True"
| "writer_place pl = False"

fun raised_flag :: "place \<Rightarrow> bool" where
  "raised_flag (Admitted_to_write es) = True"
| "raised_flag Has_write_access = True"
| "raised_flag pl = False"

definition readers_guarded :: "'a rp_lock_scheme threads \<Rightarrow> bool" where
  "readers_guarded sys \<longleftrightarrow>
     (resource sys \<noteq> Undefined_behaviour \<longrightarrow>
        finite {t. place_of sys t = Has_read_access}
      \<and> reader_count (bookkeeping sys) = int (card {t. place_of sys t = Has_read_access})
      \<and> (0 < reader_count (bookkeeping sys) \<longrightarrow>
           (\<exists>u. resource sys = Mutex (Some u))
           \<and> \<not> writer_active (bookkeeping sys)
           \<and> (\<forall>t. \<not> writer_place (place_of sys t)))
      \<and> (\<forall>t. raised_flag (place_of sys t) \<longrightarrow> writer_active (bookkeeping sys))
      \<and> (\<forall>t u. raised_flag (place_of sys t) \<and> raised_flag (place_of sys u) \<longrightarrow> t = u))"

section \<open>Admission predicates\<close>

lemma await_Some_iff:
  "await f obs = Some r \<longleftrightarrow>
     (\<exists>pre s post. obs = pre @ s # post \<and> (\<forall>x\<in>set pre. f x = None) \<and> f s = Some r)"
proof (induction obs)
  case Nil
  then show ?case by simp
next
  case (Cons a obs)
  show ?case
  proof (cases "f a")
    case None
    have "(\<exists>pre s post. a # obs = pre @ s # post \<and> (\<forall>x\<in>set pre. f x = None) \<and> f s = Some r)
          \<longleftrightarrow> (\<exists>pre s post. obs = pre @ s # post \<and> (\<forall>x\<in>set pre. f x = None) \<and> f s = Some r)"
      (is "?L \<longleftrightarrow> ?R")
    proof
      assume ?L
      then obtain pre s post where h: "a # obs = pre @ s # post" "\<forall>x\<in>set pre. f x = None" "f s = Some r"
        by blast
      show ?R
      proof (cases pre)
        case Nil
        with h None show ?thesis by simp
      next
        case (Cons b pre')
        with h have "obs = pre' @ s # post" "\<forall>x\<in>set pre'. f x = None" by simp_all
        with h(3) show ?thesis by blast
      qed
    next
      assume ?R
      then obtain pre s post where h: "obs = pre @ s # post" "\<forall>x\<in>set pre. f x = None" "f s = Some r"
        by blast
      then have "a # obs = (a # pre) @ s # post" "\<forall>x\<in>set (a # pre). f x = None"
        using None by simp_all
      with h(3) show ?L by blast
    qed
    with None Cons show ?thesis by simp
  next
    case (Some r')
    have "(\<exists>pre s post. a # obs = pre @ s # post \<and> (\<forall>x\<in>set pre. f x = None) \<and> f s = Some r)
          \<longleftrightarrow> r' = r" (is "?L \<longleftrightarrow> _")
    proof
      assume ?L
      then obtain pre s post where h: "a # obs = pre @ s # post" "\<forall>x\<in>set pre. f x = None" "f s = Some r"
        by blast
      show "r' = r"
      proof (cases pre)
        case Nil
        with h Some show ?thesis by simp
      next
        case (Cons b pre')
        with h have "f a = None" by simp
        with Some show ?thesis by simp
      qed
    next
      assume "r' = r"
      with Some have "a # obs = [] @ a # obs \<and> (\<forall>x\<in>set []. f x = None) \<and> f a = Some r" by simp
      then show ?L by blast
    qed
    with Some show ?thesis by simp
  qed
qed

text \<open>
  C2.  In the writer-preference lock, \<open>read_lock\<close> admits its caller exactly when
  \<open>!writer_active && waiting_writers == 0\<close> holds and \<open>write_lock\<close> admits its
  caller exactly when \<open>reader_count == 0 && !writer_active\<close> holds, in
  readers_writers.cpp and in readers_writers_educational.cpp alike.  A caller
  that finds its predicate false waits: a whole call is admitted at the first
  state, among those the caller finds at its evaluations, where the predicate
  holds, and at no other.
\<close>

theorem writer_preference_admission:
  "(wp_read_lock s =
      (if \<not> writer_active s \<and> waiting_writers s = 0
       then Some (s\<lparr>reader_count := reader_count s + 1\<rparr>,
                  if reader_count s = 0 then [Resource_lock] else [])
       else None))
   \<and> (wp_write_lock_admit s =
      (if reader_count s = 0 \<and> \<not> writer_active s
       then Some (s\<lparr>writer_active := True, waiting_writers := waiting_writers s - 1\<rparr>,
                  [Resource_lock])
       else None))
   \<and> (edu_read_lock s \<noteq> None \<longleftrightarrow> \<not> writer_active s \<and> waiting_writers s = 0)
   \<and> (edu_write_lock_admit s \<noteq> None \<longleftrightarrow> reader_count s = 0 \<and> \<not> writer_active s)
   \<and> (wp_read_lock_call obs = Some r \<longleftrightarrow>
        (\<exists>pre x post. obs = pre @ x # post
           \<and> (\<forall>y\<in>set pre. \<not> (\<not> writer_active y \<and> waiting_writers y = 0))
           \<and> (\<not> writer_active x \<and> waiting_writers x = 0)
           \<and> wp_read_lock x = Some r))
   \<and> (wp_write_lock_call s obs = Some w \<longleftrightarrow>
        (\<exists>pre x post. wp_write_lock_enter s # obs = pre @ x # post
           \<and> (\<forall>y\<in>set pre. \<not> (reader_count y = 0 \<and> \<not> writer_active y))
           \<and> (reader_count x = 0 \<and> \<not> writer_active x)
           \<and> wp_write_lock_admit x = Some w))"
proof -
  have rd: "wp_read_lock x = None \<longleftrightarrow> \<not> (\<not> writer_active x \<and> waiting_writers x = 0)" for x
    by (simp add: wp_read_lock_def Let_def)
  have wr: "wp_write_lock_admit x = None \<longleftrightarrow> \<not> (reader_count x = 0 \<and> \<not> writer_active x)" for x
    by (simp add: wp_write_lock_admit_def)
  have rd': "wp_read_lock x = Some r \<Longrightarrow> \<not> writer_active x \<and> waiting_writers x = 0" for x r
    using rd [of x] by auto
  have wr': "wp_write_lock_admit x = Some r \<Longrightarrow> reader_count x = 0 \<and> \<not> writer_active x" for x r
    using wr [of x] by auto
  have 1: "wp_read_lock s =
      (if \<not> writer_active s \<and> waiting_writers s = 0
       then Some (s\<lparr>reader_count := reader_count s + 1\<rparr>,
                  if reader_count s = 0 then [Resource_lock] else [])
       else None)"
    by (simp add: wp_read_lock_def Let_def)
  have 2: "wp_write_lock_admit s =
      (if reader_count s = 0 \<and> \<not> writer_active s
       then Some (s\<lparr>writer_active := True, waiting_writers := waiting_writers s - 1\<rparr>,
                  [Resource_lock])
       else None)"
    by (simp add: wp_write_lock_admit_def)
  have 3: "edu_read_lock s \<noteq> None \<longleftrightarrow> \<not> writer_active s \<and> waiting_writers s = 0"
    by (simp add: edu_read_lock_def)
  have 4: "edu_write_lock_admit s \<noteq> None \<longleftrightarrow> reader_count s = 0 \<and> \<not> writer_active s"
    by (simp add: edu_write_lock_admit_def)
  have 5: "wp_read_lock_call obs = Some r \<longleftrightarrow>
        (\<exists>pre x post. obs = pre @ x # post
           \<and> (\<forall>y\<in>set pre. \<not> (\<not> writer_active y \<and> waiting_writers y = 0))
           \<and> (\<not> writer_active x \<and> waiting_writers x = 0)
           \<and> wp_read_lock x = Some r)"
    unfolding wp_read_lock_call_def await_Some_iff rd using rd' by blast
  have 6: "wp_write_lock_call s obs = Some w \<longleftrightarrow>
        (\<exists>pre x post. wp_write_lock_enter s # obs = pre @ x # post
           \<and> (\<forall>y\<in>set pre. \<not> (reader_count y = 0 \<and> \<not> writer_active y))
           \<and> (reader_count x = 0 \<and> \<not> writer_active x)
           \<and> wp_write_lock_admit x = Some w)"
    unfolding wp_write_lock_call_def await_Some_iff wr using wr' by blast
  from 1 2 3 4 5 6 show ?thesis by blast
qed

theorem writer_preference_admission_witness:
  "wp_read_lock_call
     [wp_init\<lparr>writer_active := True\<rparr>, wp_init\<lparr>waiting_writers := 1\<rparr>, wp_init]
     = Some (wp_init\<lparr>reader_count := 1\<rparr>, [Resource_lock])
   \<and> wp_write_lock_call wp_init
       [wp_init\<lparr>writer_active := True\<rparr>, wp_init\<lparr>waiting_writers := 1\<rparr>, wp_init]
     = Some (wp_init\<lparr>writer_active := True\<rparr>, [Resource_lock])"
  using writer_preference_admission
    [where s = wp_init
       and obs = "[wp_init\<lparr>writer_active := True\<rparr>, wp_init\<lparr>waiting_writers := 1\<rparr>, wp_init]"
       and r = "(wp_init\<lparr>reader_count := 1\<rparr>, [Resource_lock])"
       and w = "(wp_init\<lparr>writer_active := True\<rparr>, [Resource_lock])"]
  by (simp add: wp_read_lock_call_def wp_write_lock_call_def wp_read_lock_def
        wp_write_lock_admit_def wp_write_lock_enter_def wp_init_def)

section \<open>Exclusivity\<close>

lemma grant_following_reads_eq:
  "grant_following_reads (s, es) =
     (s\<lparr>request_queue := dropWhile is_read (request_queue s),
        active_readers := active_readers s + int (length (takeWhile is_read (request_queue s))),
        granted := granted s @ map cv (takeWhile is_read (request_queue s))\<rparr>,
      es @ map (\<lambda>r. Notify_one (Request_cv (cv r))) (takeWhile is_read (request_queue s)))"
proof (induction "(s, es)" arbitrary: s es rule: grant_following_reads.induct)
  case (1 s es)
  show ?case
  proof (cases "request_queue s")
    case Nil
    then show ?thesis by (simp add: grant_following_reads.simps)
  next
    case (Cons r rest)
    show ?thesis
    proof (cases "type r = READ")
      case True
      with Cons 1 show ?thesis
        by (subst grant_following_reads.simps) (simp add: is_read_def Let_def)
    next
      case False
      with Cons show ?thesis
        by (subst grant_following_reads.simps) (simp add: is_read_def)
    qed
  qed
qed

lemma process_queue_eq:
  "process_queue s =
     (if request_queue s \<noteq> [] \<and> is_read (hd (request_queue s)) \<and> \<not> writer_active_fair s then
        (s\<lparr>request_queue := dropWhile is_read (request_queue s),
           active_readers := active_readers s + int (length (takeWhile is_read (request_queue s))),
           granted := granted s @ map cv (takeWhile is_read (request_queue s))\<rparr>,
         map (\<lambda>r. Notify_one (Request_cv (cv r))) (takeWhile is_read (request_queue s)))
      else if request_queue s \<noteq> [] \<and> \<not> is_read (hd (request_queue s))
              \<and> active_readers s = 0 \<and> \<not> writer_active_fair s then
        (s\<lparr>request_queue := tl (request_queue s),
           writer_active_fair := True,
           granted := granted s @ [cv (hd (request_queue s))]\<rparr>,
         [Notify_one (Request_cv (cv (hd (request_queue s))))])
      else (s, []))"
proof (cases "request_queue s")
  case Nil
  then show ?thesis by (simp add: process_queue_def)
next
  case (Cons r rest)
  then show ?thesis
    by (simp add: process_queue_def Let_def grant_following_reads_eq is_read_def)
qed

lemma process_queue_exclusive:
  assumes "\<not> (writer_active_fair s \<and> active_readers s > 0)"
  shows "\<not> (writer_active_fair (fst (process_queue s)) \<and> active_readers (fst (process_queue s)) > 0)"
  using assms by (auto simp: process_queue_eq)

lemma step_exclusive:
  assumes "exclusive e" and "step e t = Some e'"
  shows "exclusive e'"
proof (cases e)
  case (WriterPreference s)
  with assms show ?thesis
    by (cases t)
       (auto simp: wp_read_lock_def wp_read_unlock_def wp_write_lock_enter_def
          wp_write_lock_admit_def wp_write_unlock_def Let_def split: if_splits)
next
  case (WriterPreferenceEducational s)
  with assms show ?thesis
    by (cases t)
       (auto simp: edu_read_lock_def edu_read_unlock_def edu_write_lock_enter_def
          edu_write_lock_admit_def edu_write_unlock_def Let_def split: if_splits)
next
  case (ReaderPreference s)
  with assms show ?thesis
    by (cases t)
       (auto simp: rp_read_lock_def rp_read_unlock_def rp_write_lock_def rp_write_unlock_def
          Let_def split: if_splits)
next
  case (FIFOFair s)
  have push: "\<not> (writer_active_fair (push_request k s) \<and> active_readers (push_request k s) > 0)" for k
    using assms(1) FIFOFair by (simp add: push_request_def)
  have dec: "\<not> (writer_active_fair (s\<lparr>active_readers := active_readers s - 1\<rparr>)
       \<and> active_readers (s\<lparr>active_readers := active_readers s - 1\<rparr>) > 0)"
    using assms(1) FIFOFair by auto
  have clr: "\<not> (writer_active_fair (s\<lparr>writer_active_fair := False\<rparr>)
       \<and> active_readers (s\<lparr>writer_active_fair := False\<rparr>) > 0)"
    by simp
  show ?thesis
  proof (cases t)
    case Arrive_read
    with assms FIFOFair process_queue_exclusive [OF push [of READ]] show ?thesis
      by (auto simp: fair_read_lock_enter_def)
  next
    case Admit_read
    with assms FIFOFair show ?thesis by auto
  next
    case Release_read
    with assms FIFOFair process_queue_exclusive [OF dec] show ?thesis
      by (auto simp: fair_read_unlock_def Let_def split: prod.splits)
  next
    case Arrive_write
    with assms FIFOFair process_queue_exclusive [OF push [of WRITE]] show ?thesis
      by (auto simp: fair_write_lock_enter_def)
  next
    case Admit_write
    with assms FIFOFair show ?thesis by auto
  next
    case Release_write
    with assms FIFOFair process_queue_exclusive [OF clr] show ?thesis
      by (auto simp: fair_write_unlock_def Let_def split: prod.splits)
  qed
next
  case (MonitorStyle s)
  with assms show ?thesis
    by (cases t)
       (auto simp: start_read_enter_def start_read_admit_def end_read_def start_write_enter_def
          start_write_admit_def end_write_def Let_def split: if_splits)
qed

lemma run_exclusive:
  "exclusive e \<Longrightarrow> run e ts = Some e' \<Longrightarrow> exclusive e'"
proof (induction ts arbitrary: e)
  case Nil
  then show ?case by simp
next
  case (Cons t ts)
  then show ?case
    by (auto split: option.splits dest: step_exclusive)
qed

lemma engines_exclusive: "e \<in> set engines \<Longrightarrow> exclusive e"
  by (auto simp: engines_def wp_init_def rp_init_def fair_init_def monitor_init_def)

text \<open>
  C1.  Exclusivity, \<open>NOT (writer_active AND active_readers > 0)\<close>: every
  transition of every engine, arrival, admission or release, leads from a
  state where it holds to a state where it holds, and it holds in every state
  an engine reaches from its initial state.
\<close>

theorem exclusivity:
  "(exclusive e \<and> step e t = Some e' \<longrightarrow> exclusive e')
   \<and> (e0 \<in> set engines \<and> run e0 ts = Some e'' \<longrightarrow> exclusive e'')"
  using step_exclusive run_exclusive engines_exclusive by blast

theorem exclusivity_witness:
  "run (FIFOFair fair_init) [Arrive_read, Arrive_write, Arrive_read, Release_read, Release_write]
     = Some (FIFOFair \<lparr>request_queue = [], active_readers = 1, writer_active_fair = False,
                      granted = [0, 1, 2], next_request = 3\<rparr>)
   \<and> exclusive (FIFOFair \<lparr>request_queue = [], active_readers = 1, writer_active_fair = False,
                      granted = [0, 1, 2], next_request = 3\<rparr>)
   \<and> step (WriterPreference (wp_write_lock_enter wp_init)) Admit_write
       = Some (WriterPreference (wp_init\<lparr>writer_active := True\<rparr>))
   \<and> exclusive (WriterPreference (wp_init\<lparr>writer_active := True\<rparr>))"
proof -
  let ?ts = "[Arrive_read, Arrive_write, Arrive_read, Release_read, Release_write]"
  let ?f = "FIFOFair \<lparr>request_queue = [], active_readers = 1, writer_active_fair = False,
                      granted = [0, 1, 2], next_request = 3\<rparr>"
  let ?e = "WriterPreference (wp_write_lock_enter wp_init)"
  let ?e' = "WriterPreference (wp_init\<lparr>writer_active := True\<rparr>)"
  have r: "run (FIFOFair fair_init) ?ts = Some ?f"
    by (simp add: fair_init_def fair_read_lock_enter_def fair_write_lock_enter_def
          fair_read_unlock_def fair_write_unlock_def push_request_def process_queue_eq is_read_def)
  have m: "FIFOFair fair_init \<in> set engines" by (simp add: engines_def)
  have st: "step ?e Admit_write = Some ?e'"
    by (simp add: wp_write_lock_enter_def wp_write_lock_admit_def wp_init_def)
  have ex: "exclusive ?e" by (simp add: wp_write_lock_enter_def wp_init_def)
  note inst = exclusivity [where e = ?e and t = Admit_write and e' = ?e'
      and ?e0.0 = "FIFOFair fair_init" and ts = ?ts and e'' = ?f]
  from inst have a: "exclusive ?e \<and> step ?e Admit_write = Some ?e' \<longrightarrow> exclusive ?e'"
    by (rule conjunct1)
  from inst have b: "FIFOFair fair_init \<in> set engines \<and> run (FIFOFair fair_init) ?ts = Some ?f
      \<longrightarrow> exclusive ?f"
    by (rule conjunct2)
  from ex st have "exclusive ?e \<and> step ?e Admit_write = Some ?e'" by (rule conjI)
  with a have a': "exclusive ?e'" by (rule mp)
  from m r have "FIFOFair fair_init \<in> set engines \<and> run (FIFOFair fair_init) ?ts = Some ?f"
    by (rule conjI)
  with b have b': "exclusive ?f" by (rule mp)
  from r b' st a' show ?thesis by (intro conjI)
qed

section \<open>Arrival order in the fair lock\<close>

lemma map_takeWhile_dropWhile:
  "map f (takeWhile P xs) @ map f (dropWhile P xs) = map f xs"
  by (simp flip: map_append)

lemma process_queue_arrivals:
  "granted (fst (process_queue s)) @ map cv (request_queue (fst (process_queue s)))
     = granted s @ map cv (request_queue s)
   \<and> next_request (fst (process_queue s)) = next_request s"
proof (cases "request_queue s \<noteq> [] \<and> is_read (hd (request_queue s)) \<and> \<not> writer_active_fair s")
  case True
  then show ?thesis by (simp add: process_queue_eq map_takeWhile_dropWhile)
next
  case nr: False
  show ?thesis
  proof (cases "request_queue s \<noteq> [] \<and> \<not> is_read (hd (request_queue s))
              \<and> active_readers s = 0 \<and> \<not> writer_active_fair s")
    case True
    then have "cv (hd (request_queue s)) # map cv (tl (request_queue s)) = map cv (request_queue s)"
      by (cases "request_queue s") simp_all
    with True nr show ?thesis by (simp add: process_queue_eq)
  next
    case False
    with nr have "process_queue s = (s, [])" by (auto simp: process_queue_eq)
    then show ?thesis by simp
  qed
qed

lemma arrival_order_process_queue:
  "arrival_order s \<Longrightarrow> arrival_order (fst (process_queue s))"
  using process_queue_arrivals [of s] by (simp add: arrival_order_def)

lemma arrival_order_push: "arrival_order s \<Longrightarrow> arrival_order (push_request k s)"
  by (simp add: arrival_order_def push_request_def flip: append_assoc)

lemma arrival_order_step:
  assumes "arrival_order s" and "step (FIFOFair s) t = Some e"
  shows "\<exists>s'. e = FIFOFair s' \<and> arrival_order s'"
proof (cases t)
  case Arrive_read
  with assms arrival_order_process_queue [OF arrival_order_push [OF assms(1), of READ]]
  show ?thesis by (auto simp: fair_read_lock_enter_def)
next
  case Admit_read
  with assms show ?thesis by auto
next
  case Release_read
  have "arrival_order (s\<lparr>active_readers := active_readers s - 1\<rparr>)"
    using assms(1) by (simp add: arrival_order_def)
  from arrival_order_process_queue [OF this] Release_read assms(2)
  show ?thesis by (auto simp: fair_read_unlock_def Let_def split: prod.splits)
next
  case Arrive_write
  with assms arrival_order_process_queue [OF arrival_order_push [OF assms(1), of WRITE]]
  show ?thesis by (auto simp: fair_write_lock_enter_def)
next
  case Admit_write
  with assms show ?thesis by auto
next
  case Release_write
  have "arrival_order (s\<lparr>writer_active_fair := False\<rparr>)"
    using assms(1) by (simp add: arrival_order_def)
  from arrival_order_process_queue [OF this] Release_write assms(2)
  show ?thesis by (auto simp: fair_write_unlock_def Let_def split: prod.splits)
qed

lemma arrival_order_run:
  "arrival_order s \<Longrightarrow> run (FIFOFair s) ts = Some e \<Longrightarrow> \<exists>s'. e = FIFOFair s' \<and> arrival_order s'"
proof (induction ts arbitrary: s)
  case Nil
  then show ?case by auto
next
  case (Cons t ts)
  from Cons.prems(2) obtain e1 where e1: "step (FIFOFair s) t = Some e1" "run e1 ts = Some e"
    by (auto split: option.splits)
  from arrival_order_step [OF Cons.prems(1) e1(1)] obtain s1
    where "e1 = FIFOFair s1" "arrival_order s1" by blast
  with Cons.IH e1(2) show ?case by blast
qed

text \<open>
  C3.  The fair lock grants in arrival order, with one relaxation.  One pass
  of \<open>process_queue\<close> grants a prefix of the queue: when the head is a read
  request and no writer is active, the head and every read request that
  follows it without interruption, and nothing behind the first write
  request; when the head is a write request, it alone, and only if no reader
  and no writer is active; nothing otherwise.  Over any execution from the
  initial lock the requests granted so far, in the order of their grants,
  followed by the queue, are the requests in the order of their arrival: no
  request is granted before one that arrived earlier.  For the queue
  \<open>[Read, Read, Write, Read]\<close> the two reads are granted together, the write
  only when both have released, and the last read only after the write has
  released.
\<close>

theorem fifo_grant_order:
  "(request_queue s \<noteq> [] \<and> type (hd (request_queue s)) = READ \<and> \<not> writer_active_fair s \<longrightarrow>
      request_queue (fst (process_queue s)) = dropWhile is_read (request_queue s)
      \<and> granted (fst (process_queue s))
          = granted s @ map cv (takeWhile is_read (request_queue s))
      \<and> active_readers (fst (process_queue s))
          = active_readers s + int (length (takeWhile is_read (request_queue s)))
      \<and> writer_active_fair (fst (process_queue s)) = writer_active_fair s)
   \<and> (request_queue s \<noteq> [] \<and> type (hd (request_queue s)) = WRITE
        \<and> active_readers s = 0 \<and> \<not> writer_active_fair s \<longrightarrow>
      request_queue (fst (process_queue s)) = tl (request_queue s)
      \<and> granted (fst (process_queue s)) = granted s @ [cv (hd (request_queue s))]
      \<and> active_readers (fst (process_queue s)) = active_readers s
      \<and> writer_active_fair (fst (process_queue s)))
   \<and> (request_queue s = [] \<or> writer_active_fair s
        \<or> (type (hd (request_queue s)) = WRITE \<and> active_readers s \<noteq> 0) \<longrightarrow>
      process_queue s = (s, []))
   \<and> (\<exists>now. request_queue s = now @ request_queue (fst (process_queue s))
          \<and> granted (fst (process_queue s)) = granted s @ map cv now)
   \<and> (run (FIFOFair fair_init) ts = Some (FIFOFair s') \<longrightarrow>
        granted s' @ map cv (request_queue s') = [0..<next_request s'])
   \<and> (request_queue q = [\<lparr>type = READ, cv = a\<rparr>, \<lparr>type = READ, cv = b\<rparr>,
                          \<lparr>type = WRITE, cv = c\<rparr>, \<lparr>type = READ, cv = d\<rparr>]
        \<and> \<not> writer_active_fair q \<and> active_readers q = 0 \<longrightarrow>
       (let s1 = fst (process_queue q);
            s2 = fst (fair_read_unlock s1);
            s3 = fst (fair_read_unlock s2);
            s4 = fst (fair_write_unlock s3)
        in granted s1 = granted q @ [a, b]
           \<and> request_queue s1 = [\<lparr>type = WRITE, cv = c\<rparr>, \<lparr>type = READ, cv = d\<rparr>]
           \<and> active_readers s1 = 2
           \<and> process_queue s1 = (s1, [])
           \<and> granted s2 = granted q @ [a, b]
           \<and> granted s3 = granted q @ [a, b, c]
           \<and> request_queue s3 = [\<lparr>type = READ, cv = d\<rparr>]
           \<and> process_queue s3 = (s3, [])
           \<and> granted s4 = granted q @ [a, b, c, d]))"
proof -
  have rd: "request_queue s \<noteq> [] \<and> type (hd (request_queue s)) = READ \<and> \<not> writer_active_fair s \<longrightarrow>
      request_queue (fst (process_queue s)) = dropWhile is_read (request_queue s)
      \<and> granted (fst (process_queue s))
          = granted s @ map cv (takeWhile is_read (request_queue s))
      \<and> active_readers (fst (process_queue s))
          = active_readers s + int (length (takeWhile is_read (request_queue s)))
      \<and> writer_active_fair (fst (process_queue s)) = writer_active_fair s"
    by (simp add: process_queue_eq is_read_def)
  have wr: "request_queue s \<noteq> [] \<and> type (hd (request_queue s)) = WRITE
        \<and> active_readers s = 0 \<and> \<not> writer_active_fair s \<longrightarrow>
      request_queue (fst (process_queue s)) = tl (request_queue s)
      \<and> granted (fst (process_queue s)) = granted s @ [cv (hd (request_queue s))]
      \<and> active_readers (fst (process_queue s)) = active_readers s
      \<and> writer_active_fair (fst (process_queue s))"
    by (simp add: process_queue_eq is_read_def)
  have no: "request_queue s = [] \<or> writer_active_fair s
        \<or> (type (hd (request_queue s)) = WRITE \<and> active_readers s \<noteq> 0) \<longrightarrow>
      process_queue s = (s, [])"
    by (auto simp: process_queue_eq is_read_def)
  have pre: "\<exists>now. request_queue s = now @ request_queue (fst (process_queue s))
          \<and> granted (fst (process_queue s)) = granted s @ map cv now"
  proof (cases "request_queue s \<noteq> [] \<and> is_read (hd (request_queue s)) \<and> \<not> writer_active_fair s")
    case True
    then have "request_queue s
        = takeWhile is_read (request_queue s) @ request_queue (fst (process_queue s))
      \<and> granted (fst (process_queue s))
        = granted s @ map cv (takeWhile is_read (request_queue s))"
      by (simp add: process_queue_eq)
    then show ?thesis by blast
  next
    case False
    show ?thesis
    proof (cases "request_queue s \<noteq> [] \<and> \<not> is_read (hd (request_queue s))
              \<and> active_readers s = 0 \<and> \<not> writer_active_fair s")
      case True
      then have "request_queue s = [hd (request_queue s)] @ request_queue (fst (process_queue s))
        \<and> granted (fst (process_queue s)) = granted s @ map cv [hd (request_queue s)]"
        by (simp add: process_queue_eq)
      then show ?thesis by blast
    next
      case False
      with \<open>\<not> (request_queue s \<noteq> [] \<and> is_read (hd (request_queue s)) \<and> \<not> writer_active_fair s)\<close>
      have "process_queue s = (s, [])" by (auto simp: process_queue_eq)
      then have "request_queue s = [] @ request_queue (fst (process_queue s))
        \<and> granted (fst (process_queue s)) = granted s @ map cv []"
        by simp
      then show ?thesis by blast
    qed
  qed
  have init: "arrival_order fair_init"
    by (simp add: arrival_order_def fair_init_def)
  have rn: "run (FIFOFair fair_init) ts = Some (FIFOFair s') \<longrightarrow>
        granted s' @ map cv (request_queue s') = [0..<next_request s']"
    using arrival_order_run [OF init, of ts "FIFOFair s'"] by (auto simp: arrival_order_def)
  have sc: "request_queue q = [\<lparr>type = READ, cv = a\<rparr>, \<lparr>type = READ, cv = b\<rparr>,
                          \<lparr>type = WRITE, cv = c\<rparr>, \<lparr>type = READ, cv = d\<rparr>]
        \<and> \<not> writer_active_fair q \<and> active_readers q = 0 \<longrightarrow>
       (let s1 = fst (process_queue q);
            s2 = fst (fair_read_unlock s1);
            s3 = fst (fair_read_unlock s2);
            s4 = fst (fair_write_unlock s3)
        in granted s1 = granted q @ [a, b]
           \<and> request_queue s1 = [\<lparr>type = WRITE, cv = c\<rparr>, \<lparr>type = READ, cv = d\<rparr>]
           \<and> active_readers s1 = 2
           \<and> process_queue s1 = (s1, [])
           \<and> granted s2 = granted q @ [a, b]
           \<and> granted s3 = granted q @ [a, b, c]
           \<and> request_queue s3 = [\<lparr>type = READ, cv = d\<rparr>]
           \<and> process_queue s3 = (s3, [])
           \<and> granted s4 = granted q @ [a, b, c, d])"
    by (simp add: process_queue_eq fair_read_unlock_def fair_write_unlock_def is_read_def Let_def)
  show ?thesis by (intro conjI rd wr no pre rn sc)
qed

theorem fifo_grant_order_witness:
  "run (FIFOFair fair_init)
     [Arrive_write, Arrive_read, Arrive_read, Arrive_write, Arrive_read,
      Release_write, Release_read, Release_read]
     = Some (FIFOFair \<lparr>request_queue = [\<lparr>type = READ, cv = 4\<rparr>], active_readers = 0,
                        writer_active_fair = True, granted = [0, 1, 2, 3], next_request = 5\<rparr>)
   \<and> [0, 1, 2, 3] @ map cv [\<lparr>type = READ, cv = 4\<rparr>] = [0..<5]
   \<and> granted (fst (process_queue
        \<lparr>request_queue = [\<lparr>type = READ, cv = 1\<rparr>, \<lparr>type = READ, cv = 2\<rparr>,
                           \<lparr>type = WRITE, cv = 3\<rparr>, \<lparr>type = READ, cv = 4\<rparr>],
         active_readers = 0, writer_active_fair = False, granted = [0], next_request = 5\<rparr>))
     = [0, 1, 2]
   \<and> request_queue (fst (process_queue
        \<lparr>request_queue = [\<lparr>type = READ, cv = 1\<rparr>, \<lparr>type = READ, cv = 2\<rparr>,
                           \<lparr>type = WRITE, cv = 3\<rparr>, \<lparr>type = READ, cv = 4\<rparr>],
         active_readers = 0, writer_active_fair = False, granted = [0], next_request = 5\<rparr>))
     = [\<lparr>type = WRITE, cv = 3\<rparr>, \<lparr>type = READ, cv = 4\<rparr>]"
proof -
  let ?ts = "[Arrive_write, Arrive_read, Arrive_read, Arrive_write, Arrive_read,
      Release_write, Release_read, Release_read]"
  let ?S = "\<lparr>request_queue = [\<lparr>type = READ, cv = 4\<rparr>], active_readers = 0,
                        writer_active_fair = True, granted = [0, 1, 2, 3], next_request = 5\<rparr>"
  let ?Q = "\<lparr>request_queue = [\<lparr>type = READ, cv = 1\<rparr>, \<lparr>type = READ, cv = 2\<rparr>,
                           \<lparr>type = WRITE, cv = 3\<rparr>, \<lparr>type = READ, cv = 4\<rparr>],
         active_readers = 0, writer_active_fair = False, granted = [0], next_request = 5\<rparr>"
  have r: "run (FIFOFair fair_init) ?ts = Some (FIFOFair ?S)"
    by (simp add: fair_init_def fair_read_lock_enter_def fair_write_lock_enter_def
          fair_read_unlock_def fair_write_unlock_def push_request_def process_queue_eq is_read_def)
  note inst = fifo_grant_order
    [where ts = ?ts and s' = ?S and s = ?Q and q = ?Q and a = 1 and b = 2 and c = 3 and d = 4]
  from inst have rn: "run (FIFOFair fair_init) ?ts = Some (FIFOFair ?S) \<longrightarrow>
        granted ?S @ map cv (request_queue ?S) = [0..<next_request ?S]"
    by (rule conjunct2 [THEN conjunct2, THEN conjunct2, THEN conjunct2, THEN conjunct1])
  from rn r have "granted ?S @ map cv (request_queue ?S) = [0..<next_request ?S]"
    by (rule mp)
  then have order: "[0, 1, 2, 3] @ map cv [\<lparr>type = READ, cv = 4\<rparr>] = [0..<5]"
    by simp
  from inst have rd: "request_queue ?Q \<noteq> [] \<and> type (hd (request_queue ?Q)) = READ
      \<and> \<not> writer_active_fair ?Q \<longrightarrow>
      request_queue (fst (process_queue ?Q)) = dropWhile is_read (request_queue ?Q)
      \<and> granted (fst (process_queue ?Q))
          = granted ?Q @ map cv (takeWhile is_read (request_queue ?Q))
      \<and> active_readers (fst (process_queue ?Q))
          = active_readers ?Q + int (length (takeWhile is_read (request_queue ?Q)))
      \<and> writer_active_fair (fst (process_queue ?Q)) = writer_active_fair ?Q"
    by (rule conjunct1)
  have h: "request_queue ?Q \<noteq> [] \<and> type (hd (request_queue ?Q)) = READ
      \<and> \<not> writer_active_fair ?Q"
    by simp
  from rd h have g: "request_queue (fst (process_queue ?Q)) = dropWhile is_read (request_queue ?Q)
      \<and> granted (fst (process_queue ?Q))
          = granted ?Q @ map cv (takeWhile is_read (request_queue ?Q))
      \<and> active_readers (fst (process_queue ?Q))
          = active_readers ?Q + int (length (takeWhile is_read (request_queue ?Q)))
      \<and> writer_active_fair (fst (process_queue ?Q)) = writer_active_fair ?Q"
    by (rule mp)
  from g have g1: "request_queue (fst (process_queue ?Q))
      = [\<lparr>type = WRITE, cv = 3\<rparr>, \<lparr>type = READ, cv = 4\<rparr>]"
    by (simp add: is_read_def)
  from g have g2: "granted (fst (process_queue ?Q)) = [0, 1, 2]"
    by (simp add: is_read_def)
  from r order g2 g1 show ?thesis by (intro conjI)
qed

section \<open>Release without a matching admission\<close>




section \<open>The readers-priority policy\<close>



section \<open>The monitor and the writer-preference lock\<close>

text \<open>
  C6 as stated: every release wakes exactly one waiting writer if a writer is
  waiting, and a writer is admitted exactly when \<open>reader_count == 0\<close> and no
  writer is active.  With two readers in the monitor and a writer waiting, the
  reader that leaves first signals nothing.  And after an \<open>end_read\<close> on the
  initial monitor, which leaves \<open>reader_count = -1\<close>, \<open>start_write\<close> admits its
  caller, where the writer-preference lock does not.
\<close>

theorem monitor_release_counterexample:
  "run (MonitorStyle monitor_init)
     [Arrive_read, Admit_read, Arrive_read, Admit_read, Arrive_write]
     = Some (MonitorStyle \<lparr>reader_count = 2, writer_active = False, waiting_writers = 1,
                            waiting_readers = 0\<rparr>)
   \<and> snd (end_read \<lparr>reader_count = 2, writer_active = False, waiting_writers = 1,
                     waiting_readers = 0\<rparr>) = []
   \<and> reader_count (fst (end_read monitor_init)) = - 1
   \<and> start_write_admit (start_write_enter (fst (end_read monitor_init))) \<noteq> None
   \<and> wp_write_lock_admit (wp_write_lock_enter (fst (wp_read_unlock wp_init))) = None"
  by (simp add: monitor_init_def start_read_enter_def start_read_admit_def
        start_write_enter_def start_write_admit_def end_read_def wp_init_def
        wp_read_unlock_def wp_write_lock_enter_def wp_write_lock_admit_def)

text \<open>
  C6, amended.  While no counter is negative the monitor admits as the
  writer-preference lock does: a reader exactly when
  \<open>!writer_active && waiting_writers == 0\<close>, a writer exactly when
  \<open>reader_count == 0 && !writer_active\<close>, and every part updates the fields the
  two classes share in the same way.  The wake-ups differ.  A write release
  signals one writer when \<open>waiting_writers > 0\<close>, otherwise all readers when
  \<open>waiting_readers > 0\<close>.  A read release signals one writer only when it is
  the last reader's and \<open>waiting_writers > 0\<close>; otherwise it signals nobody.
\<close>

theorem monitor_refines_writer_preference:
  "(0 \<le> waiting_writers m \<longrightarrow>
      (start_read_admit m \<noteq> None \<longleftrightarrow> \<not> writer_active m \<and> waiting_writers m = 0)
      \<and> map_option (\<lambda>r. wp_lock.truncate (fst r)) (start_read_admit m)
         = map_option fst (wp_read_lock (wp_lock.truncate m)))
   \<and> (0 \<le> reader_count m \<longrightarrow>
      (start_write_admit m \<noteq> None \<longleftrightarrow> reader_count m = 0 \<and> \<not> writer_active m)
      \<and> map_option (\<lambda>r. wp_lock.truncate (fst r)) (start_write_admit m)
         = map_option fst (wp_write_lock_admit (wp_lock.truncate m)))
   \<and> wp_lock.truncate (start_read_enter m) = wp_lock.truncate m
   \<and> wp_lock.truncate (start_write_enter m) = wp_write_lock_enter (wp_lock.truncate m)
   \<and> wp_lock.truncate (fst (end_read m)) = fst (wp_read_unlock (wp_lock.truncate m))
   \<and> wp_lock.truncate (fst (end_write m)) = fst (wp_write_unlock (wp_lock.truncate m))
   \<and> snd (end_write m)
       = (if waiting_writers m > 0 then [Notify_one Write_cv]
          else if waiting_readers m > 0 then [Notify_all Read_cv] else [])
   \<and> snd (end_read m)
       = (if reader_count m = 1 \<and> waiting_writers m > 0 then [Notify_one Write_cv] else [])"
  by (auto simp: start_read_admit_def start_write_admit_def start_read_enter_def
        start_write_enter_def end_read_def end_write_def wp_read_lock_def wp_write_lock_admit_def
        wp_write_lock_enter_def wp_read_unlock_def wp_write_unlock_def wp_lock.truncate_def
        Let_def)

theorem monitor_refines_writer_preference_witness:
  "start_read_admit (start_read_enter monitor_init)
     = Some (monitor_init\<lparr>reader_count := 1\<rparr>, [Notify_one Read_cv])
   \<and> map_option fst (wp_read_lock (wp_lock.truncate (start_read_enter monitor_init)))
     = Some \<lparr>reader_count = 1, writer_active = False, waiting_writers = 0\<rparr>
   \<and> start_write_admit (monitor_init\<lparr>reader_count := 1\<rparr>) = None
   \<and> wp_write_lock_admit (wp_lock.truncate (monitor_init\<lparr>reader_count := 1\<rparr>)) = None
   \<and> snd (end_write (monitor_init\<lparr>waiting_writers := 1, waiting_readers := 1\<rparr>))
     = [Notify_one Write_cv]"
  using monitor_refines_writer_preference [of "start_read_enter monitor_init"]
        monitor_refines_writer_preference [of "monitor_init\<lparr>reader_count := 1\<rparr>"]
        monitor_refines_writer_preference
          [of "monitor_init\<lparr>waiting_writers := 1, waiting_readers := 1\<rparr>"]
  by (simp add: monitor_init_def start_read_enter_def start_read_admit_def
        start_write_admit_def wp_lock.truncate_def wp_read_lock_def wp_write_lock_admit_def)

section \<open>Snapshot queries\<close>

text \<open>
  C7 as stated: the snapshot query returns active_readers, writer_active,
  waiting_readers, waiting_writers and queue_length.  The one query of the
  fair lock, \<open>queue_size\<close>, gives the same answer before and after a reader is
  admitted, although \<open>active_readers\<close> differs: it does not report that field.
\<close>

theorem snapshot_counterexample:
  "fst (queue_size fair_init) = fst (queue_size (fst (fair_read_lock_enter fair_init)))
   \<and> active_readers fair_init \<noteq> active_readers (fst (fair_read_lock_enter fair_init))"
  by (simp add: queue_size_def fair_init_def fair_read_lock_enter_def push_request_def
        process_queue_eq is_read_def)

text \<open>
  C7, amended.  The queries are read-only and each reports a part of the
  bookkeeping: \<open>get_state\<close> of the monitor returns \<open>reader_count\<close>, \<open>writer_active\<close>
  as \<open>1\<close> or \<open>0\<close>, \<open>waiting_readers\<close> and \<open>waiting_writers\<close>; \<open>queue_size\<close> of the
  fair lock returns the length of the queue.  Both leave every field and the
  queue as they were.
\<close>

theorem snapshot_read_only:
  "get_state m =
     ((reader_count m, (if writer_active m then 1 else 0), waiting_readers m, waiting_writers m),
      m)
   \<and> queue_size f = (length (request_queue f), f)"
  by (simp add: get_state_def queue_size_def)

theorem snapshot_read_only_witness:
  "get_state \<lparr>reader_count = 2, writer_active = False, waiting_writers = 1, waiting_readers = 0\<rparr>
     = ((2, 0, 0, 1),
        \<lparr>reader_count = 2, writer_active = False, waiting_writers = 1, waiting_readers = 0\<rparr>)
   \<and> queue_size (push_request WRITE fair_init)
     = (1, \<lparr>request_queue = [\<lparr>type = WRITE, cv = 0\<rparr>], active_readers = 0,
            writer_active_fair = False, granted = [], next_request = 1\<rparr>)"
  using snapshot_read_only
    [of "\<lparr>reader_count = 2, writer_active = False, waiting_writers = 1, waiting_readers = 0\<rparr>"
        "push_request WRITE fair_init"]
  by (simp add: push_request_def fair_init_def)

section \<open>The retry of the semaphore reader\<close>

lemma reader_lock_pass_Try_again:
  "reader_lock_pass s = Try_again s' \<Longrightarrow> s' = s \<and> writer_waiting s"
  by (auto simp: reader_lock_pass_def Let_def split: if_splits)

lemma reader_lock_pass_Entered:
  "reader_lock_pass s = Entered s' \<Longrightarrow>
     \<not> writer_waiting s \<and> reader_count_sem s' = reader_count_sem s + 1
     \<and> write_mutex s' = (if reader_count_sem s = 0 then write_mutex s - 1 else write_mutex s)
     \<and> (reader_count_sem s = 0 \<longrightarrow> 0 < write_mutex s)
     \<and> mutex s' = mutex s \<and> read_mutex s' = read_mutex s
     \<and> writer_waiting s' = writer_waiting s"
  by (auto simp: reader_lock_pass_def Let_def split: if_splits)

lemma reader_lock_pass_waiting:
  "writer_waiting s \<Longrightarrow> 0 < read_mutex s \<Longrightarrow> 0 < mutex s \<Longrightarrow> reader_lock_pass s = Try_again s"
  by (simp add: reader_lock_pass_def Let_def)

lemma reader_lock_pass_free:
  "\<not> writer_waiting s \<Longrightarrow> 0 < read_mutex s \<Longrightarrow> 0 < mutex s \<Longrightarrow>
     reader_count_sem s = 0 \<longrightarrow> 0 < write_mutex s \<Longrightarrow> \<exists>s'. reader_lock_pass s = Entered s'"
  by (auto simp: reader_lock_pass_def Let_def)

lemma reader_lock_Acquired:
  assumes "reader_lock sleep n s = Some r"
  shows "\<forall>s' m. r = Acquired s' m \<longrightarrow>
        n \<le> m \<and> reader_lock_pass (seen sleep n s (m - n)) = Entered s'
        \<and> (\<forall>k<m - n. reader_lock_pass (seen sleep n s k) = Try_again (seen sleep n s k))"
  using assms
proof (induction sleep n s r rule: reader_lock.raw_induct)
  case (1 f sleep n s r)
  show ?case
  proof (cases "reader_lock_pass s")
    case (Suspended s1)
    with 1(2) show ?thesis by auto
  next
    case (Entered s1)
    with 1(2) show ?thesis by auto
  next
    case (Try_again s1)
    with reader_lock_pass_Try_again have eq: "s1 = s" by blast
    from 1(2) Try_again eq have call: "f sleep (Suc n) (sleep n s) = Some r" by simp
    from 1(3) Try_again eq have call': "reader_lock sleep (Suc n) (sleep n s) = Some r"
      by (subst (asm) reader_lock.simps) simp
    show ?thesis
    proof (intro allI impI)
      fix s' m
      assume r: "r = Acquired s' m"
      from 1(1) [OF call call'] r
      have ih: "Suc n \<le> m"
        "reader_lock_pass (seen sleep (Suc n) (sleep n s) (m - Suc n)) = Entered s'"
        "\<forall>k<m - Suc n. reader_lock_pass (seen sleep (Suc n) (sleep n s) k)
            = Try_again (seen sleep (Suc n) (sleep n s) k)"
        by blast+
      from ih(1) have m: "m - n = Suc (m - Suc n)" by simp
      have "\<forall>k<m - n. reader_lock_pass (seen sleep n s k) = Try_again (seen sleep n s k)"
      proof (intro allI impI)
        fix k assume "k < m - n"
        then show "reader_lock_pass (seen sleep n s k) = Try_again (seen sleep n s k)"
          using ih(3) Try_again eq m by (cases k) auto
      qed
      with ih(1,2) m show "n \<le> m \<and> reader_lock_pass (seen sleep n s (m - n)) = Entered s'
        \<and> (\<forall>k<m - n. reader_lock_pass (seen sleep n s k) = Try_again (seen sleep n s k))"
        by simp
    qed
  qed
qed (rule assms)

lemma reader_lock_returns_only_if:
  assumes "reader_lock sleep n s = Some r"
  shows "\<exists>k. reader_lock_pass (seen sleep n s k) \<noteq> Try_again (seen sleep n s k)"
  using assms
proof (induction sleep n s r rule: reader_lock.raw_induct)
  case (1 f sleep n s r)
  show ?case
  proof (cases "reader_lock_pass s = Try_again s")
    case True
    with 1(2) have call: "f sleep (Suc n) (sleep n s) = Some r" by simp
    from 1(3) True have call': "reader_lock sleep (Suc n) (sleep n s) = Some r"
      by (subst (asm) reader_lock.simps) simp
    from 1(1) [OF call call'] obtain k where
      "reader_lock_pass (seen sleep (Suc n) (sleep n s) k) \<noteq> Try_again (seen sleep (Suc n) (sleep n s) k)"
      by blast
    then have "reader_lock_pass (seen sleep n s (Suc k)) \<noteq> Try_again (seen sleep n s (Suc k))"
      by simp
    then show ?thesis by blast
  next
    case False
    then have "reader_lock_pass (seen sleep n s 0) \<noteq> Try_again (seen sleep n s 0)" by simp
    then show ?thesis by blast
  qed
qed (rule assms)

lemma reader_lock_after_retries:
  "(\<forall>k<j. reader_lock_pass (seen sleep n s k) = Try_again (seen sleep n s k)) \<Longrightarrow>
   reader_lock_pass (seen sleep n s j) = Entered s' \<Longrightarrow>
   reader_lock sleep n s = Some (Acquired s' (n + j))"
proof (induction j arbitrary: n s)
  case 0
  then show ?case by (subst reader_lock.simps) simp
next
  case (Suc j)
  from Suc.prems(1) have first: "reader_lock_pass s = Try_again s" by force
  have "\<forall>k<j. reader_lock_pass (seen sleep (Suc n) (sleep n s) k)
          = Try_again (seen sleep (Suc n) (sleep n s) k)"
  proof (intro allI impI)
    fix k assume "k < j"
    then have "Suc k < Suc j" by simp
    with Suc.prems(1) have "reader_lock_pass (seen sleep n s (Suc k)) = Try_again (seen sleep n s (Suc k))"
      by blast
    then show "reader_lock_pass (seen sleep (Suc n) (sleep n s) k)
          = Try_again (seen sleep (Suc n) (sleep n s) k)" by simp
  qed
  moreover from Suc.prems(2)
  have "reader_lock_pass (seen sleep (Suc n) (sleep n s) j) = Entered s'" by simp
  ultimately have "reader_lock sleep (Suc n) (sleep n s) = Some (Acquired s' (Suc n + j))"
    by (rule Suc.IH)
  with first show ?case by (subst reader_lock.simps) simp
qed

text \<open>
  C8.  One pass of \<open>reader_lock\<close> increments \<open>reader_count\<close>, and as first
  reader takes \<open>write_mutex\<close>, only when it observes \<open>writer_waiting\<close> false.  A
  pass that observes it true leaves the count and the three semaphores as it
  found them and is followed by a self-call after the sleep.  Nothing bounds
  the number of retries: the call returns with the lock acquired after \<open>m\<close>
  retries only if \<open>writer_waiting\<close> was observed true in the \<open>m\<close> passes
  before and false in the last; for every \<open>j\<close>, when no semaphore suspends
  the caller, an observation of false first at pass \<open>j\<close> makes it return after
  \<open>j\<close> retries; and it never returns while every pass observes
  \<open>writer_waiting\<close> true.
\<close>

theorem reader_lock_retry:
  "(\<forall>s'. reader_lock_pass s = Entered s' \<longrightarrow>
       \<not> writer_waiting s \<and> reader_count_sem s' = reader_count_sem s + 1
       \<and> write_mutex s' = (if reader_count_sem s = 0 then write_mutex s - 1 else write_mutex s)
       \<and> (reader_count_sem s = 0 \<longrightarrow> 0 < write_mutex s))
   \<and> (writer_waiting s \<and> 0 < read_mutex s \<and> 0 < mutex s \<longrightarrow> reader_lock_pass s = Try_again s)
   \<and> (\<forall>s'. reader_lock_pass s = Try_again s' \<longrightarrow> writer_waiting s \<and> s' = s)
   \<and> (\<forall>s' m. reader_lock sleep n s = Some (Acquired s' m) \<longrightarrow>
         n \<le> m \<and> \<not> writer_waiting (seen sleep n s (m - n))
         \<and> (\<forall>k<m - n. writer_waiting (seen sleep n s k)))
   \<and> ((\<forall>k. writer_waiting (seen sleep n s k) \<and> 0 < read_mutex (seen sleep n s k)
             \<and> 0 < mutex (seen sleep n s k)) \<longrightarrow>
        reader_lock sleep n s = None)
   \<and> ((\<forall>k<j. writer_waiting (seen sleep n s k) \<and> 0 < read_mutex (seen sleep n s k)
               \<and> 0 < mutex (seen sleep n s k))
        \<and> \<not> writer_waiting (seen sleep n s j) \<and> 0 < read_mutex (seen sleep n s j)
        \<and> 0 < mutex (seen sleep n s j)
        \<and> (reader_count_sem (seen sleep n s j) = 0 \<longrightarrow> 0 < write_mutex (seen sleep n s j)) \<longrightarrow>
        (\<exists>s'. reader_lock sleep n s = Some (Acquired s' (n + j))))"
proof -
  have p1: "\<forall>s'. reader_lock_pass s = Entered s' \<longrightarrow>
       \<not> writer_waiting s \<and> reader_count_sem s' = reader_count_sem s + 1
       \<and> write_mutex s' = (if reader_count_sem s = 0 then write_mutex s - 1 else write_mutex s)
       \<and> (reader_count_sem s = 0 \<longrightarrow> 0 < write_mutex s)"
    using reader_lock_pass_Entered [of s] by blast
  have p2: "writer_waiting s \<and> 0 < read_mutex s \<and> 0 < mutex s \<longrightarrow> reader_lock_pass s = Try_again s"
    using reader_lock_pass_waiting [of s] by blast
  have p3: "\<forall>s'. reader_lock_pass s = Try_again s' \<longrightarrow> writer_waiting s \<and> s' = s"
    using reader_lock_pass_Try_again [of s] by blast
  have p4: "\<forall>s' m. reader_lock sleep n s = Some (Acquired s' m) \<longrightarrow>
         n \<le> m \<and> \<not> writer_waiting (seen sleep n s (m - n))
         \<and> (\<forall>k<m - n. writer_waiting (seen sleep n s k))"
  proof (intro allI impI)
    fix s' m
    assume "reader_lock sleep n s = Some (Acquired s' m)"
    from reader_lock_Acquired [OF this]
    have a: "n \<le> m" "reader_lock_pass (seen sleep n s (m - n)) = Entered s'"
      "\<forall>k<m - n. reader_lock_pass (seen sleep n s k) = Try_again (seen sleep n s k)"
      by blast+
    from a(2) have "\<not> writer_waiting (seen sleep n s (m - n))"
      using reader_lock_pass_Entered by blast
    moreover from a(3) have "\<forall>k<m - n. writer_waiting (seen sleep n s k)"
      using reader_lock_pass_Try_again by blast
    ultimately show "n \<le> m \<and> \<not> writer_waiting (seen sleep n s (m - n))
         \<and> (\<forall>k<m - n. writer_waiting (seen sleep n s k))"
      using a(1) by blast
  qed
  have p5: "(\<forall>k. writer_waiting (seen sleep n s k) \<and> 0 < read_mutex (seen sleep n s k)
             \<and> 0 < mutex (seen sleep n s k)) \<longrightarrow>
        reader_lock sleep n s = None"
  proof
    assume h: "\<forall>k. writer_waiting (seen sleep n s k) \<and> 0 < read_mutex (seen sleep n s k)
             \<and> 0 < mutex (seen sleep n s k)"
    then have all: "\<forall>k. reader_lock_pass (seen sleep n s k) = Try_again (seen sleep n s k)"
      using reader_lock_pass_waiting by blast
    show "reader_lock sleep n s = None"
    proof (cases "reader_lock sleep n s")
      case None
      then show ?thesis .
    next
      case (Some r)
      from reader_lock_returns_only_if [OF Some] all show ?thesis by blast
    qed
  qed
  have p6: "(\<forall>k<j. writer_waiting (seen sleep n s k) \<and> 0 < read_mutex (seen sleep n s k)
               \<and> 0 < mutex (seen sleep n s k))
        \<and> \<not> writer_waiting (seen sleep n s j) \<and> 0 < read_mutex (seen sleep n s j)
        \<and> 0 < mutex (seen sleep n s j)
        \<and> (reader_count_sem (seen sleep n s j) = 0 \<longrightarrow> 0 < write_mutex (seen sleep n s j)) \<longrightarrow>
        (\<exists>s'. reader_lock sleep n s = Some (Acquired s' (n + j)))"
  proof
    assume h: "(\<forall>k<j. writer_waiting (seen sleep n s k) \<and> 0 < read_mutex (seen sleep n s k)
               \<and> 0 < mutex (seen sleep n s k))
        \<and> \<not> writer_waiting (seen sleep n s j) \<and> 0 < read_mutex (seen sleep n s j)
        \<and> 0 < mutex (seen sleep n s j)
        \<and> (reader_count_sem (seen sleep n s j) = 0 \<longrightarrow> 0 < write_mutex (seen sleep n s j))"
    then have before: "\<forall>k<j. reader_lock_pass (seen sleep n s k) = Try_again (seen sleep n s k)"
      using reader_lock_pass_waiting by blast
    from h obtain s' where "reader_lock_pass (seen sleep n s j) = Entered s'"
      using reader_lock_pass_free [of "seen sleep n s j"] by blast
    from reader_lock_after_retries [OF before this]
    show "\<exists>s'. reader_lock sleep n s = Some (Acquired s' (n + j))" by blast
  qed
  show ?thesis by (intro conjI p1 p2 p3 p4 p5 p6)
qed

theorem reader_lock_retry_witness:
  "writer_lock_announce semaphore_init = Some (semaphore_init\<lparr>writer_waiting := True\<rparr>)
   \<and> (\<exists>s'. reader_lock
              (\<lambda>k st. if k = 2 then (case writer_session st of None \<Rightarrow> st | Some st' \<Rightarrow> st')
                       else st)
              0 (semaphore_init\<lparr>writer_waiting := True\<rparr>) = Some (Acquired s' (0 + 3)))
   \<and> reader_lock_pass (semaphore_init\<lparr>writer_waiting := True\<rparr>)
       = Try_again (semaphore_init\<lparr>writer_waiting := True\<rparr>)
   \<and> reader_lock (\<lambda>k st. st) 0 (semaphore_init\<lparr>writer_waiting := True\<rparr>) = None"
proof -
  let ?sleep = "\<lambda>(k::nat) st.
     if k = 2 then (case writer_session st of None \<Rightarrow> st | Some st' \<Rightarrow> st') else st"
  let ?s = "semaphore_init\<lparr>writer_waiting := True\<rparr>"
  have ann: "writer_lock_announce semaphore_init = Some ?s"
    by (simp add: writer_lock_announce_def semaphore_init_def)
  have ws: "writer_session ?s = Some semaphore_init"
    by (simp add: writer_session_def writer_lock_acquire_def writer_lock_reset_def
          writer_unlock_def sem_post_def SEM_VALUE_MAX_def semaphore_init_def)
  have s0: "seen ?sleep 0 ?s 0 = ?s" by simp
  have s1: "seen ?sleep 0 ?s (Suc 0) = ?s" by simp
  have s2: "seen ?sleep 0 ?s (Suc (Suc 0)) = ?s" by simp
  have s3: "seen ?sleep 0 ?s 3 = semaphore_init"
    by (simp add: numeral_3_eq_3 ws)
  have first: "writer_waiting ?s \<and> 0 < read_mutex ?s \<and> 0 < mutex ?s"
    by (simp add: semaphore_init_def)
  have before: "\<forall>k<3. writer_waiting (seen ?sleep 0 ?s k) \<and> 0 < read_mutex (seen ?sleep 0 ?s k)
               \<and> 0 < mutex (seen ?sleep 0 ?s k)"
  proof (intro allI impI)
    fix k :: nat
    assume "k < 3"
    then have "k = 0 \<or> k = Suc 0 \<or> k = Suc (Suc 0)" by arith
    then have "seen ?sleep 0 ?s k = ?s" using s0 s1 s2 by blast
    with first show "writer_waiting (seen ?sleep 0 ?s k) \<and> 0 < read_mutex (seen ?sleep 0 ?s k)
               \<and> 0 < mutex (seen ?sleep 0 ?s k)"
      by (simp only:)
  qed
  have last: "\<not> writer_waiting (seen ?sleep 0 ?s 3) \<and> 0 < read_mutex (seen ?sleep 0 ?s 3)
        \<and> 0 < mutex (seen ?sleep 0 ?s 3)
        \<and> (reader_count_sem (seen ?sleep 0 ?s 3) = 0 \<longrightarrow> 0 < write_mutex (seen ?sleep 0 ?s 3))"
    unfolding s3 by (simp add: semaphore_init_def)
  note inst = reader_lock_retry [where sleep = ?sleep and n = 0 and s = ?s and j = 3]
  from inst have a: "writer_waiting ?s \<and> 0 < read_mutex ?s \<and> 0 < mutex ?s \<longrightarrow>
      reader_lock_pass ?s = Try_again ?s"
    by (rule conjunct2 [THEN conjunct1])
  from inst have b: "(\<forall>k<3. writer_waiting (seen ?sleep 0 ?s k) \<and> 0 < read_mutex (seen ?sleep 0 ?s k)
               \<and> 0 < mutex (seen ?sleep 0 ?s k))
        \<and> \<not> writer_waiting (seen ?sleep 0 ?s 3) \<and> 0 < read_mutex (seen ?sleep 0 ?s 3)
        \<and> 0 < mutex (seen ?sleep 0 ?s 3)
        \<and> (reader_count_sem (seen ?sleep 0 ?s 3) = 0 \<longrightarrow> 0 < write_mutex (seen ?sleep 0 ?s 3)) \<longrightarrow>
        (\<exists>s'. reader_lock ?sleep 0 ?s = Some (Acquired s' (0 + 3)))"
    by (rule conjunct2 [THEN conjunct2, THEN conjunct2, THEN conjunct2, THEN conjunct2])
  from a first have a': "reader_lock_pass ?s = Try_again ?s" by (rule mp)
  from before last have "(\<forall>k<3. writer_waiting (seen ?sleep 0 ?s k) \<and> 0 < read_mutex (seen ?sleep 0 ?s k)
               \<and> 0 < mutex (seen ?sleep 0 ?s k))
        \<and> \<not> writer_waiting (seen ?sleep 0 ?s 3) \<and> 0 < read_mutex (seen ?sleep 0 ?s 3)
        \<and> 0 < mutex (seen ?sleep 0 ?s 3)
        \<and> (reader_count_sem (seen ?sleep 0 ?s 3) = 0 \<longrightarrow> 0 < write_mutex (seen ?sleep 0 ?s 3))"
    by (rule conjI)
  with b have b': "\<exists>s'. reader_lock ?sleep 0 ?s = Some (Acquired s' (0 + 3))" by (rule mp)
  have same: "seen (\<lambda>k st. st) n ?s k = ?s" for n k
    by (induction k arbitrary: n) simp_all
  have always: "\<forall>k. writer_waiting (seen (\<lambda>k st. st) 0 ?s k)
      \<and> 0 < read_mutex (seen (\<lambda>k st. st) 0 ?s k) \<and> 0 < mutex (seen (\<lambda>k st. st) 0 ?s k)"
    unfolding same using first by (rule allI)
  note inst0 = reader_lock_retry [where sleep = "\<lambda>k st. st" and n = 0 and s = ?s and j = 0]
  from inst0 have c: "(\<forall>k. writer_waiting (seen (\<lambda>k st. st) 0 ?s k)
      \<and> 0 < read_mutex (seen (\<lambda>k st. st) 0 ?s k) \<and> 0 < mutex (seen (\<lambda>k st. st) 0 ?s k))
      \<longrightarrow> reader_lock (\<lambda>k st. st) 0 ?s = None"
    by (rule conjunct2 [THEN conjunct2, THEN conjunct2, THEN conjunct2, THEN conjunct1])
  from c always have c': "reader_lock (\<lambda>k st. st) 0 ?s = None" by (rule mp)
  from ann b' a' c' show ?thesis by (intro conjI)
qed

section \<open>The unlock of the last reader in the fair lock\<close>

lemma consistent_init: "consistent system_init"
  by (simp add: consistent_def tokens_ok_def system_init_def fair_init_def arrival_order_def
        write_token_def)

lemma arrival_order_distinct:
  assumes "arrival_order s"
  shows "distinct (map cv (request_queue s))"
    and "\<forall>r\<in>set (granted s). r \<notin> cv ` set (request_queue s)"
    and "\<forall>r\<in>set (granted s). r < next_request s"
    and "\<forall>q\<in>set (request_queue s). cv q < next_request s"
proof -
  from assms have eq: "granted s @ map cv (request_queue s) = [0..<next_request s]"
    by (simp add: arrival_order_def)
  have d: "distinct (granted s @ map cv (request_queue s))"
    unfolding eq by simp
  then show "distinct (map cv (request_queue s))" by simp
  from d show "\<forall>r\<in>set (granted s). r \<notin> cv ` set (request_queue s)" by auto
  have "set (granted s) \<union> cv ` set (request_queue s) = set [0..<next_request s]"
    using eq by (metis set_append set_map)
  then show "\<forall>r\<in>set (granted s). r < next_request s"
    and "\<forall>q\<in>set (request_queue s). cv q < next_request s"
    by auto
qed

lemma tokens_ok_process_queue:
  assumes ok: "tokens_ok p st"
  shows "tokens_ok (fst (process_queue p)) st"
proof (cases "request_queue p \<noteq> [] \<and> is_read (hd (request_queue p)) \<and> \<not> writer_active_fair p")
  case True
  let ?now = "takeWhile is_read (request_queue p)"
  let ?s = "fst (process_queue p)"
  from True have s: "?s = p\<lparr>request_queue := dropWhile is_read (request_queue p),
           active_readers := active_readers p + int (length ?now),
           granted := granted p @ map cv ?now\<rparr>"
    by (simp add: process_queue_eq)
  from ok have ao: "arrival_order p" by (simp add: tokens_ok_def)
  from ok True have notok: "\<And>t. \<not> write_token p st t" by (auto simp: tokens_ok_def)
  have reads: "\<And>q. q \<in> set ?now \<Longrightarrow> type q = READ \<and> q \<in> set (request_queue p)"
    by (auto simp: is_read_def dest: set_takeWhileD)
  have nonew: "\<not> write_token ?s st t" for t
  proof
    assume "write_token ?s st t"
    with notok [of t] obtain r where r: "st t = Awaiting_write r" "r \<notin> set (granted p)"
      "r \<in> cv ` set ?now"
      by (auto simp: write_token_def s)
    from ok r(1,2) have w: "\<lparr>type = WRITE, cv = r\<rparr> \<in> set (request_queue p)"
      by (simp add: tokens_ok_def)
    from r(3) obtain q where q: "q \<in> set ?now" "cv q = r" by auto
    with reads have q': "type q = READ" "q \<in> set (request_queue p)" by auto
    from arrival_order_distinct(1) [OF ao]
    have "inj_on cv (set (request_queue p))" by (simp add: distinct_map)
    from inj_onD [OF this, of q "\<lparr>type = WRITE, cv = r\<rparr>"] w q' q(2)
    have "q = \<lparr>type = WRITE, cv = r\<rparr>" by simp
    with q'(1) show False by simp
  qed
  have ao': "arrival_order ?s" using arrival_order_process_queue [OF ao] .
  have "set ?now \<union> set (dropWhile is_read (request_queue p)) = set (request_queue p)"
    by (metis set_append takeWhile_dropWhile_id)
  then have q_sub: "set (request_queue p) \<subseteq> set ?now \<union> set (request_queue ?s)"
    by (simp add: s)
  show ?thesis
    unfolding tokens_ok_def
  proof (intro conjI)
    show "\<not> (writer_active_fair ?s \<and> 0 < active_readers ?s)" using True by (simp add: s)
    show "arrival_order ?s" by (rule ao')
    show "\<forall>t. write_token ?s st t \<longrightarrow> writer_active_fair ?s" using nonew by blast
    show "\<forall>t u. write_token ?s st t \<and> write_token ?s st u \<longrightarrow> t = u" using nonew by blast
    show "\<forall>t u r. st t = Awaiting_write r \<and> st u = Awaiting_write r \<longrightarrow> t = u"
      using ok by (simp add: tokens_ok_def)
    show "\<forall>t r. st t = Awaiting_write r \<longrightarrow>
            r < next_request ?s
            \<and> (r \<notin> set (granted ?s) \<longrightarrow> \<lparr>type = WRITE, cv = r\<rparr> \<in> set (request_queue ?s))"
    proof (intro allI impI conjI)
      fix t r assume a: "st t = Awaiting_write r"
      with ok show "r < next_request ?s" by (simp add: tokens_ok_def s)
      assume ng: "r \<notin> set (granted ?s)"
      then have "r \<notin> set (granted p)" by (simp add: s)
      with ok a have w: "\<lparr>type = WRITE, cv = r\<rparr> \<in> set (request_queue p)"
        by (simp add: tokens_ok_def)
      have "\<lparr>type = WRITE, cv = r\<rparr> \<notin> set ?now" using reads by fastforce
      with w q_sub show "\<lparr>type = WRITE, cv = r\<rparr> \<in> set (request_queue ?s)" by blast
    qed
  qed
next
  case nr: False
  show ?thesis
  proof (cases "request_queue p \<noteq> [] \<and> \<not> is_read (hd (request_queue p))
              \<and> active_readers p = 0 \<and> \<not> writer_active_fair p")
    case True
    let ?s = "fst (process_queue p)"
    let ?w = "hd (request_queue p)"
    from True nr have s: "?s = p\<lparr>request_queue := tl (request_queue p),
           writer_active_fair := True, granted := granted p @ [cv ?w]\<rparr>"
      by (simp add: process_queue_eq)
    from ok have ao: "arrival_order p" by (simp add: tokens_ok_def)
    from ok True have notok: "\<And>t. \<not> write_token p st t" by (auto simp: tokens_ok_def)
    have tok: "write_token ?s st t \<Longrightarrow> st t = Awaiting_write (cv ?w)" for t
      using notok [of t] by (auto simp: write_token_def s)
    from True have q: "request_queue p = ?w # tl (request_queue p)" by simp
    have wtype: "type ?w = WRITE" using True by (cases "type ?w") (simp_all add: is_read_def)
    show ?thesis
      unfolding tokens_ok_def
    proof (intro conjI)
      show "\<not> (writer_active_fair ?s \<and> 0 < active_readers ?s)" using True by (simp add: s)
      show "arrival_order ?s" by (rule arrival_order_process_queue [OF ao])
      show "\<forall>t. write_token ?s st t \<longrightarrow> writer_active_fair ?s" by (simp add: s)
      show "\<forall>t u. write_token ?s st t \<and> write_token ?s st u \<longrightarrow> t = u"
        using tok ok by (auto simp: tokens_ok_def)
      show "\<forall>t u r. st t = Awaiting_write r \<and> st u = Awaiting_write r \<longrightarrow> t = u"
        using ok by (simp add: tokens_ok_def)
      show "\<forall>t r. st t = Awaiting_write r \<longrightarrow>
            r < next_request ?s
            \<and> (r \<notin> set (granted ?s) \<longrightarrow> \<lparr>type = WRITE, cv = r\<rparr> \<in> set (request_queue ?s))"
      proof (intro allI impI conjI)
        fix t r assume a: "st t = Awaiting_write r"
        with ok show "r < next_request ?s" by (simp add: tokens_ok_def s)
        assume ng: "r \<notin> set (granted ?s)"
        then have ng': "r \<notin> set (granted p)" "r \<noteq> cv ?w" by (simp_all add: s)
        with ok a have w: "\<lparr>type = WRITE, cv = r\<rparr> \<in> set (request_queue p)"
          by (simp add: tokens_ok_def)
        then have "\<lparr>type = WRITE, cv = r\<rparr> \<in> set (?w # tl (request_queue p))"
          using q by simp
        then have "\<lparr>type = WRITE, cv = r\<rparr> = ?w \<or> \<lparr>type = WRITE, cv = r\<rparr> \<in> set (tl (request_queue p))"
          by simp
        moreover have "\<lparr>type = WRITE, cv = r\<rparr> \<noteq> ?w"
        proof
          assume "\<lparr>type = WRITE, cv = r\<rparr> = ?w"
          then have "cv \<lparr>type = WRITE, cv = r\<rparr> = cv ?w" by (simp only:)
          with ng'(2) show False by simp
        qed
        ultimately have "\<lparr>type = WRITE, cv = r\<rparr> \<in> set (tl (request_queue p))"
          by blast
        then show "\<lparr>type = WRITE, cv = r\<rparr> \<in> set (request_queue ?s)" by (simp add: s)
      qed
    qed
  next
    case False
    with nr have "process_queue p = (p, [])" by (auto simp: process_queue_eq)
    with ok show ?thesis by simp
  qed
qed

lemma push_request_fields:
  "writer_active_fair (push_request k s) = writer_active_fair s"
  "active_readers (push_request k s) = active_readers s"
  "granted (push_request k s) = granted s"
  "next_request (push_request k s) = Suc (next_request s)"
  "request_queue (push_request k s) = request_queue s @ [\<lparr>type = k, cv = next_request s\<rparr>]"
  by (simp_all add: push_request_def)

lemma tokens_ok_push:
  assumes ok: "tokens_ok s st" and idle: "st t = Idle"
    and new: "new = Awaiting_read (next_request s) \<and> k = READ
              \<or> new = Awaiting_write (next_request s) \<and> k = WRITE"
  shows "tokens_ok (push_request k s) (st(t := new))"
proof -
  let ?p = "push_request k s" and ?st = "st(t := new)"
  from ok have ao: "arrival_order s" by (simp add: tokens_ok_def)
  from arrival_order_distinct(3) [OF ao] have fresh: "next_request s \<notin> set (granted s)"
    by auto
  from idle have nt: "\<not> write_token s st t" by (simp add: write_token_def)
  have tok: "write_token ?p ?st u \<longleftrightarrow> write_token s st u" for u
    using nt fresh new by (auto simp: write_token_def push_request_fields)
  have old: "st u = Awaiting_write r \<Longrightarrow>
      r < next_request s \<and> (r \<notin> set (granted s) \<longrightarrow> \<lparr>type = WRITE, cv = r\<rparr> \<in> set (request_queue s))"
    for u r
    using ok by (simp add: tokens_ok_def)
  have uniq: "st u = Awaiting_write r \<Longrightarrow> st v = Awaiting_write r \<Longrightarrow> u = v" for u v r
    using ok unfolding tokens_ok_def by blast
  show ?thesis
    unfolding tokens_ok_def tok
  proof (intro conjI)
    show "\<not> (writer_active_fair ?p \<and> 0 < active_readers ?p)"
      using ok by (simp add: tokens_ok_def push_request_fields)
    show "arrival_order ?p" by (rule arrival_order_push [OF ao])
    show "\<forall>t. write_token s st t \<longrightarrow> writer_active_fair ?p"
      using ok by (simp add: tokens_ok_def push_request_fields)
    show "\<forall>t u. write_token s st t \<and> write_token s st u \<longrightarrow> t = u"
      using ok unfolding tokens_ok_def by blast
    show "\<forall>u v r. ?st u = Awaiting_write r \<and> ?st v = Awaiting_write r \<longrightarrow> u = v"
    proof (intro allI impI)
      fix u v r assume a: "?st u = Awaiting_write r \<and> ?st v = Awaiting_write r"
      show "u = v"
      proof (cases "u = t")
        case True
        with a new have r: "r = next_request s" by auto
        show ?thesis
        proof (cases "v = t")
          case True
          with \<open>u = t\<close> show ?thesis by simp
        next
          case False
          with a have "st v = Awaiting_write r" by simp
          from old [OF this] r show ?thesis by simp
        qed
      next
        case False
        with a have u: "st u = Awaiting_write r" by simp
        show ?thesis
        proof (cases "v = t")
          case True
          with a new have "r = next_request s" by auto
          with old [OF u] show ?thesis by simp
        next
          case False
          with a have "st v = Awaiting_write r" by simp
          with u show ?thesis by (rule uniq)
        qed
      qed
    qed
    show "\<forall>u r. ?st u = Awaiting_write r \<longrightarrow>
            r < next_request ?p
            \<and> (r \<notin> set (granted ?p) \<longrightarrow> \<lparr>type = WRITE, cv = r\<rparr> \<in> set (request_queue ?p))"
    proof (intro allI impI)
      fix u r assume a: "?st u = Awaiting_write r"
      show "r < next_request ?p
            \<and> (r \<notin> set (granted ?p) \<longrightarrow> \<lparr>type = WRITE, cv = r\<rparr> \<in> set (request_queue ?p))"
      proof (cases "u = t")
        case True
        with a new have "r = next_request s \<and> k = WRITE" by auto
        then show ?thesis by (simp add: push_request_fields)
      next
        case False
        with a have "st u = Awaiting_write r" by simp
        from old [OF this] show ?thesis by (auto simp: push_request_fields)
      qed
    qed
  qed
qed

lemma tokens_ok_leave_read:
  assumes ok: "tokens_ok s st" and rd: "st t = Reading \<or> (\<exists>r. st t = Awaiting_read r)"
  shows "tokens_ok (s\<lparr>active_readers := active_readers s - 1\<rparr>) (st(t := Idle))"
    and "tokens_ok s (st(t := Reading))"
proof -
  have tok: "write_token (s\<lparr>active_readers := active_readers s - 1\<rparr>) (st(t := Idle)) u
      \<longleftrightarrow> write_token s st u" for u
    using rd by (auto simp: write_token_def)
  have tok': "write_token s (st(t := Reading)) u \<longleftrightarrow> write_token s st u" for u
    using rd by (auto simp: write_token_def)
  have nw: "st t \<noteq> Awaiting_write r" for r using rd by auto
  have st: "(st(t := Idle)) u = Awaiting_write r \<longleftrightarrow> st u = Awaiting_write r"
    "(st(t := Reading)) u = Awaiting_write r \<longleftrightarrow> st u = Awaiting_write r" for u r
    using nw by auto
  from ok show "tokens_ok (s\<lparr>active_readers := active_readers s - 1\<rparr>) (st(t := Idle))"
    unfolding tokens_ok_def tok st by (auto simp: arrival_order_def)
  from ok show "tokens_ok s (st(t := Reading))"
    unfolding tokens_ok_def tok' st by blast
qed

lemma tokens_ok_leave_write:
  assumes ok: "tokens_ok s st" and wr: "st t = Writing"
  shows "tokens_ok (s\<lparr>writer_active_fair := False\<rparr>) (st(t := Idle))"
proof -
  from wr have mine: "write_token s st t" by (simp add: write_token_def)
  with ok have only: "write_token s st u \<Longrightarrow> u = t" for u
    unfolding tokens_ok_def by blast
  have none: "\<not> write_token (s\<lparr>writer_active_fair := False\<rparr>) (st(t := Idle)) u" for u
  proof
    assume a: "write_token (s\<lparr>writer_active_fair := False\<rparr>) (st(t := Idle)) u"
    then have "u \<noteq> t" by (auto simp: write_token_def)
    with a have "write_token s st u" by (auto simp: write_token_def)
    with only \<open>u \<noteq> t\<close> show False by blast
  qed
  have st: "(st(t := Idle)) u = Awaiting_write r \<longleftrightarrow> st u = Awaiting_write r" for u r
    using wr by auto
  from ok show ?thesis
    unfolding tokens_ok_def st using none by (auto simp: arrival_order_def)
qed

lemma tokens_ok_enter_write:
  assumes ok: "tokens_ok s st" and aw: "st t = Awaiting_write r" and g: "r \<in> set (granted s)"
  shows "tokens_ok s (st(t := Writing))"
proof -
  from aw g have mine: "write_token s st t" by (simp add: write_token_def)
  have tok: "write_token s (st(t := Writing)) u \<longleftrightarrow> write_token s st u" for u
    using mine by (auto simp: write_token_def)
  have st: "(st(t := Writing)) u = Awaiting_write q \<longleftrightarrow> u \<noteq> t \<and> st u = Awaiting_write q" for u q
    by auto
  from ok show ?thesis
    unfolding tokens_ok_def tok st by blast
qed

lemma perform_all_Undefined [simp]:
  "perform_all t Undefined_behaviour es = Undefined_behaviour"
  by (induction es) (simp_all add: perform_all_def)

lemma perform_all_notifications [simp]:
  "perform_all t m (map (\<lambda>r. Notify_one (Request_cv (cv r))) rs) = m"
proof (induction rs)
  case Nil
  then show ?case by (simp add: perform_all_def)
next
  case (Cons r rs)
  then show ?case by (cases m) (simp_all add: perform_all_def)
qed

lemma perform_all_process_queue [simp]:
  "perform_all t m (snd (process_queue s)) = m"
proof (cases "request_queue s \<noteq> [] \<and> is_read (hd (request_queue s)) \<and> \<not> writer_active_fair s")
  case True
  then show ?thesis by (simp add: process_queue_eq)
next
  case nr: False
  show ?thesis
  proof (cases "request_queue s \<noteq> [] \<and> \<not> is_read (hd (request_queue s))
              \<and> active_readers s = 0 \<and> \<not> writer_active_fair s")
    case True
    with nr have "snd (process_queue s) = [Notify_one (Request_cv (cv (hd (request_queue s))))]"
      by (simp add: process_queue_eq)
    then show ?thesis by (cases m) (simp_all add: perform_all_def)
  next
    case False
    with nr have "process_queue s = (s, [])" by (auto simp: process_queue_eq)
    then show ?thesis by (simp add: perform_all_def)
  qed
qed

lemma perform_all_Cons:
  "perform_all t m (e # es) = perform_all t (perform t m e) es"
  by (simp add: perform_all_def)

lemma fair_read_unlock_eq:
  "fair_read_unlock s =
     (fst (process_queue (s\<lparr>active_readers := active_readers s - 1\<rparr>)),
      (if active_readers s = 1 then [Resource_unlock] else [])
        @ snd (process_queue (s\<lparr>active_readers := active_readers s - 1\<rparr>)))"
  by (simp add: fair_read_unlock_def Let_def split: prod.splits)

lemma fair_write_unlock_eq:
  "fair_write_unlock s =
     (fst (process_queue (s\<lparr>writer_active_fair := False\<rparr>)),
      Resource_unlock # snd (process_queue (s\<lparr>writer_active_fair := False\<rparr>)))"
  by (simp add: fair_write_unlock_def Let_def split: prod.splits)

lemma perform_all_append:
  "perform_all t m (es @ fs) = perform_all t (perform_all t m es) fs"
  by (simp add: perform_all_def)

lemma perform_all_Nil [simp]: "perform_all t m [] = m"
  by (simp add: perform_all_def)

lemma advance_Some:
  "advance sys t st r = Some sys' \<longleftrightarrow>
     perform_all t (resource_mutex sys) (snd r) \<noteq> Caller_suspended
     \<and> sys' = sys\<lparr>lock := fst r, resource_mutex := perform_all t (resource_mutex sys) (snd r),
                   stage_of := (stage_of sys)(t := st)\<rparr>"
  by (auto simp: advance_def split: mutex_state.splits)

lemma consistent_step:
  assumes c: "consistent sys" and step: "system_step sys a = Some sys'"
  shows "consistent sys'"
proof -
  from step have defined: "resource_mutex sys \<noteq> Undefined_behaviour"
    by (auto simp: system_step_def split: if_splits)
  with c obtain m where m: "resource_mutex sys = Mutex m"
    by (cases "resource_mutex sys") (auto simp: consistent_def)
  from c defined have ok: "tokens_ok (lock sys) (stage_of sys)"
    and own: "\<And>u. m = Some u \<Longrightarrow> stage_of sys u = Writing"
    using m by (auto simp: consistent_def)
  let ?s = "lock sys" and ?st = "stage_of sys"
  show ?thesis
  proof (cases a)
    case (Reader t)
    with step defined have idle: "?st t = Idle"
      and adv: "advance sys t (Awaiting_read (next_request ?s)) (fair_read_lock_enter ?s) = Some sys'"
      by (auto simp: system_step_def split: if_splits)
    from adv have sys': "sys' = sys\<lparr>lock := fst (process_queue (push_request READ ?s)),
          resource_mutex := Mutex m, stage_of := ?st(t := Awaiting_read (next_request ?s))\<rparr>"
      by (simp add: advance_Some fair_read_lock_enter_def m)
    have "tokens_ok (fst (process_queue (push_request READ ?s)))
            (?st(t := Awaiting_read (next_request ?s)))"
      by (rule tokens_ok_process_queue, rule tokens_ok_push [OF ok idle]) simp
    moreover have "\<forall>u. m = Some u \<longrightarrow> (?st(t := Awaiting_read (next_request ?s))) u = Writing"
      using own idle by auto
    ultimately show ?thesis by (simp add: consistent_def sys')
  next
    case (Writer t)
    with step defined have idle: "?st t = Idle"
      and adv: "advance sys t (Awaiting_write (next_request ?s)) (fair_write_lock_enter ?s) = Some sys'"
      by (auto simp: system_step_def split: if_splits)
    from adv have sys': "sys' = sys\<lparr>lock := fst (process_queue (push_request WRITE ?s)),
          resource_mutex := Mutex m, stage_of := ?st(t := Awaiting_write (next_request ?s))\<rparr>"
      by (simp add: advance_Some fair_write_lock_enter_def m)
    have "tokens_ok (fst (process_queue (push_request WRITE ?s)))
            (?st(t := Awaiting_write (next_request ?s)))"
      by (rule tokens_ok_process_queue, rule tokens_ok_push [OF ok idle]) simp
    moreover have "\<forall>u. m = Some u \<longrightarrow> (?st(t := Awaiting_write (next_request ?s))) u = Writing"
      using own idle by auto
    ultimately show ?thesis by (simp add: consistent_def sys')
  next
    case (Continue t)
    show ?thesis
    proof (cases "?st t")
      case Idle
      with step Continue defined show ?thesis by (simp add: system_step_def)
    next
      case (Awaiting_read r)
      with step Continue defined have sys': "sys' = sys\<lparr>lock := ?s,
          resource_mutex := Mutex m, stage_of := ?st(t := Reading)\<rparr>"
        by (auto simp: system_step_def fair_read_lock_admit_def advance_Some m split: if_splits)
      have "tokens_ok ?s (?st(t := Reading))"
        using tokens_ok_leave_read(2) [OF ok] Awaiting_read by blast
      moreover have "\<forall>u. m = Some u \<longrightarrow> (?st(t := Reading)) u = Writing"
        using own Awaiting_read by auto
      ultimately show ?thesis by (simp add: consistent_def sys')
    next
      case Reading
      let ?p = "?s\<lparr>active_readers := active_readers ?s - 1\<rparr>"
      from own Reading have notmine: "m \<noteq> Some t" by auto
      from step Continue defined Reading
      have adv: "advance sys t Idle (fair_read_unlock ?s) = Some sys'"
        by (simp add: system_step_def)
      show ?thesis
      proof (cases "active_readers ?s = 1")
        case True
        with adv notmine have "resource_mutex sys' = Undefined_behaviour"
          by (simp add: advance_Some fair_read_unlock_eq m perform_all_append perform_all_Cons)
        then show ?thesis by (simp add: consistent_def)
      next
        case False
        with adv have sys': "sys' = sys\<lparr>lock := fst (process_queue ?p),
            resource_mutex := Mutex m, stage_of := ?st(t := Idle)\<rparr>"
          by (simp add: advance_Some fair_read_unlock_eq m)
        have "tokens_ok (fst (process_queue ?p)) (?st(t := Idle))"
          by (rule tokens_ok_process_queue, rule tokens_ok_leave_read(1) [OF ok])
             (simp add: Reading)
        moreover have "\<forall>u. m = Some u \<longrightarrow> (?st(t := Idle)) u = Writing"
          using own Reading by auto
        ultimately show ?thesis by (simp add: consistent_def sys')
      qed
    next
      case (Awaiting_write r)
      with step Continue defined
      have g: "r \<in> set (granted ?s)"
        and adv: "advance sys t Writing (?s, [Resource_lock]) = Some sys'"
        by (auto simp: system_step_def fair_write_lock_admit_def split: if_splits)
      have tk: "tokens_ok ?s (?st(t := Writing))"
        by (rule tokens_ok_enter_write [OF ok Awaiting_write g])
      show ?thesis
      proof (cases m)
        case None
        with adv have sys': "sys' = sys\<lparr>lock := ?s,
            resource_mutex := Mutex (Some t), stage_of := ?st(t := Writing)\<rparr>"
          by (simp add: advance_Some m perform_all_Cons)
        with tk show ?thesis by (simp add: consistent_def)
      next
        case (Some u)
        with adv have "u = t" by (auto simp: advance_Some m perform_all_Cons split: if_splits)
        with adv Some have "resource_mutex sys' = Undefined_behaviour"
          by (simp add: advance_Some m perform_all_Cons)
        then show ?thesis by (simp add: consistent_def)
      qed
    next
      case Writing
      let ?p = "?s\<lparr>writer_active_fair := False\<rparr>"
      from step Continue defined Writing
      have adv: "advance sys t Idle (fair_write_unlock ?s) = Some sys'"
        by (simp add: system_step_def)
      show ?thesis
      proof (cases "m = Some t")
        case True
        with adv have sys': "sys' = sys\<lparr>lock := fst (process_queue ?p),
            resource_mutex := Mutex None, stage_of := ?st(t := Idle)\<rparr>"
          by (simp add: advance_Some fair_write_unlock_eq m perform_all_Cons)
        have "tokens_ok (fst (process_queue ?p)) (?st(t := Idle))"
          by (rule tokens_ok_process_queue, rule tokens_ok_leave_write [OF ok Writing])
        then show ?thesis by (simp add: consistent_def sys')
      next
        case False
        with adv have "resource_mutex sys' = Undefined_behaviour"
          by (simp add: advance_Some fair_write_unlock_eq m perform_all_Cons)
        then show ?thesis by (simp add: consistent_def)
      qed
    qed
  qed
qed

lemma consistent_run:
  "consistent sys \<Longrightarrow> system_run sys as = Some sys' \<Longrightarrow> consistent sys'"
proof (induction as arbitrary: sys)
  case Nil
  then show ?case by simp
next
  case (Cons a as)
  from Cons.prems(2) obtain sys1 where s1: "system_step sys a = Some sys1"
    "system_run sys1 as = Some sys'"
    by (auto split: option.splits)
  from consistent_step [OF Cons.prems(1) s1(1)] s1(2) show ?case by (rule Cons.IH)
qed

lemma process_queue_active_readers:
  "active_readers p \<le> active_readers (fst (process_queue p))"
  by (simp add: process_queue_eq)

lemma reachable_consistent:
  "system_run system_init as = Some sys \<Longrightarrow> consistent sys"
  using consistent_init by (rule consistent_run)

lemma last_reader_unlock:
  assumes c: "consistent sys" and d: "resource_mutex sys \<noteq> Undefined_behaviour"
    and rd: "stage_of sys t = Reading" and one: "active_readers (lock sys) = 1"
  shows "resource_mutex sys = Mutex None"
    and "\<exists>sys'. system_step sys (Continue t) = Some sys'
           \<and> resource_mutex sys' = Undefined_behaviour"
proof -
  from c d obtain m where m: "resource_mutex sys = Mutex m"
    by (cases "resource_mutex sys") (auto simp: consistent_def)
  from c d have ok: "tokens_ok (lock sys) (stage_of sys)"
    and own: "\<And>u. m = Some u \<Longrightarrow> stage_of sys u = Writing"
    using m by (auto simp: consistent_def)
  have "m = None"
  proof (cases m)
    case None
    then show ?thesis .
  next
    case (Some u)
    from own [OF Some] have "write_token (lock sys) (stage_of sys) u"
      by (simp add: write_token_def)
    with ok have "writer_active_fair (lock sys)" unfolding tokens_ok_def by blast
    with ok one show ?thesis by (simp add: tokens_ok_def)
  qed
  with m show free: "resource_mutex sys = Mutex None" by simp
  have "perform_all t (resource_mutex sys) (snd (fair_read_unlock (lock sys)))
          = Undefined_behaviour"
    by (simp add: free fair_read_unlock_eq one perform_all_append perform_all_Cons)
  then show "\<exists>sys'. system_step sys (Continue t) = Some sys'
           \<and> resource_mutex sys' = Undefined_behaviour"
    using d rd by (simp add: system_step_def advance_def)
qed

lemma readers_stay_step:
  assumes c: "consistent sys" and step: "system_step sys a = Some sys'"
    and d': "resource_mutex sys' \<noteq> Undefined_behaviour"
    and pos: "1 \<le> active_readers (lock sys)"
  shows "1 \<le> active_readers (lock sys')"
proof -
  from step have d: "resource_mutex sys \<noteq> Undefined_behaviour"
    by (auto simp: system_step_def split: if_splits)
  show ?thesis
  proof (cases a)
    case (Reader t)
    with step d have "lock sys' = fst (process_queue (push_request READ (lock sys)))"
      by (auto simp: system_step_def advance_Some fair_read_lock_enter_def split: if_splits)
    with process_queue_active_readers [of "push_request READ (lock sys)"] pos
    show ?thesis by (simp add: push_request_fields)
  next
    case (Writer t)
    with step d have "lock sys' = fst (process_queue (push_request WRITE (lock sys)))"
      by (auto simp: system_step_def advance_Some fair_write_lock_enter_def split: if_splits)
    with process_queue_active_readers [of "push_request WRITE (lock sys)"] pos
    show ?thesis by (simp add: push_request_fields)
  next
    case (Continue t)
    show ?thesis
    proof (cases "stage_of sys t")
      case Idle
      with step Continue d show ?thesis by (simp add: system_step_def)
    next
      case (Awaiting_read r)
      with step Continue d have "lock sys' = lock sys"
        by (auto simp: system_step_def fair_read_lock_admit_def advance_Some split: if_splits)
      with pos show ?thesis by simp
    next
      case Reading
      have "active_readers (lock sys) \<noteq> 1"
      proof
        assume "active_readers (lock sys) = 1"
        from last_reader_unlock(2) [OF c d Reading this] step Continue d'
        show False by auto
      qed
      with pos have two: "1 \<le> active_readers (lock sys) - 1" by simp
      from step Continue d Reading
      have "lock sys' = fst (process_queue (lock sys\<lparr>active_readers := active_readers (lock sys) - 1\<rparr>))"
        by (simp add: system_step_def advance_Some fair_read_unlock_eq)
      with process_queue_active_readers
             [of "lock sys\<lparr>active_readers := active_readers (lock sys) - 1\<rparr>"] two
      show ?thesis by simp
    next
      case (Awaiting_write r)
      with step Continue d have "lock sys' = lock sys"
        by (auto simp: system_step_def fair_write_lock_admit_def advance_Some split: if_splits)
      with pos show ?thesis by simp
    next
      case Writing
      with step Continue d
      have "lock sys' = fst (process_queue (lock sys\<lparr>writer_active_fair := False\<rparr>))"
        by (simp add: system_step_def advance_Some fair_write_unlock_eq)
      with process_queue_active_readers [of "lock sys\<lparr>writer_active_fair := False\<rparr>"] pos
      show ?thesis by simp
    qed
  qed
qed

lemma system_run_defined:
  "system_run sys as = Some sys' \<Longrightarrow> resource_mutex sys' \<noteq> Undefined_behaviour \<Longrightarrow>
     resource_mutex sys \<noteq> Undefined_behaviour"
proof (induction as arbitrary: sys)
  case Nil
  then show ?case by simp
next
  case (Cons a as)
  then show ?case by (auto simp: system_step_def split: option.splits if_splits)
qed

lemma readers_stay_run:
  "consistent sys \<Longrightarrow> system_run sys as = Some sys' \<Longrightarrow>
     resource_mutex sys' \<noteq> Undefined_behaviour \<Longrightarrow> 1 \<le> active_readers (lock sys) \<Longrightarrow>
     1 \<le> active_readers (lock sys')"
proof (induction as arbitrary: sys)
  case Nil
  then show ?case by simp
next
  case (Cons a as)
  from Cons.prems(2) obtain sys1 where s1: "system_step sys a = Some sys1"
    "system_run sys1 as = Some sys'"
    by (auto split: option.splits)
  from system_run_defined [OF s1(2) Cons.prems(3)]
  have d1: "resource_mutex sys1 \<noteq> Undefined_behaviour" .
  from readers_stay_step [OF Cons.prems(1) s1(1) d1 Cons.prems(4)]
  have "1 \<le> active_readers (lock sys1)" .
  with consistent_step [OF Cons.prems(1) s1(1)] s1(2) Cons.prems(3)
  show ?case by (rule Cons.IH)
qed

text \<open>
  C10.  In the fair lock no part of the read path locks \<open>resource_mutex\<close>:
  \<open>process_queue\<close> only signals the requests it grants, and \<open>read_lock\<close> adds
  nothing to that.  Yet the \<open>read_unlock\<close> that takes \<open>active_readers\<close> from \<open>1\<close>
  to \<open>0\<close> calls \<open>resource_mutex.unlock()\<close>.  With threads that run \<open>reader\<close>
  and \<open>writer\<close> of \<open>SharedResource\<close>, in every state reached from the initial
  one the mutex is owned, if at all, by a thread between \<open>write_lock\<close> and
  \<open>write_unlock\<close>; when the last active reader releases, the mutex is free
  and its unlock by that reader is undefined behaviour.  So once a read has
  been granted, there is no defined execution in which all readers have
  released.
\<close>

theorem fair_read_unlock_unowned:
  "Resource_lock \<notin> set (snd (process_queue s))
   \<and> Resource_lock \<notin> set (snd (fair_read_lock_enter s))
   \<and> (\<forall>s' es. fair_read_lock_admit r s = Some (s', es) \<longrightarrow> es = [])
   \<and> (active_readers s = 1 \<longrightarrow>
        snd (fair_read_unlock s)
          = Resource_unlock # snd (process_queue (s\<lparr>active_readers := 0\<rparr>)))
   \<and> (system_run system_init as = Some sys \<and> resource_mutex sys \<noteq> Undefined_behaviour
        \<and> stage_of sys t = Reading \<and> active_readers (lock sys) = 1 \<longrightarrow>
        resource_mutex sys = Mutex None
        \<and> (\<exists>sys'. system_step sys (Continue t) = Some sys'
               \<and> resource_mutex sys' = Undefined_behaviour))
   \<and> (system_run system_init as = Some sys \<and> 1 \<le> active_readers (lock sys)
        \<and> system_run sys bs = Some later \<and> resource_mutex later \<noteq> Undefined_behaviour \<longrightarrow>
        1 \<le> active_readers (lock later))
   \<and> (system_run system_init as = Some sys \<and> resource_mutex sys = Mutex (Some u) \<longrightarrow>
        stage_of sys u = Writing)"
proof -
  have a: "Resource_lock \<notin> set (snd (process_queue p))" for p
    by (auto simp: process_queue_eq)
  have b: "Resource_lock \<notin> set (snd (fair_read_lock_enter s))"
    unfolding fair_read_lock_enter_def by (rule a)
  have c: "\<forall>s' es. fair_read_lock_admit r s = Some (s', es) \<longrightarrow> es = []"
    by (auto simp: fair_read_lock_admit_def split: if_splits)
  have d: "active_readers s = 1 \<longrightarrow>
        snd (fair_read_unlock s)
          = Resource_unlock # snd (process_queue (s\<lparr>active_readers := 0\<rparr>))"
    by (simp add: fair_read_unlock_eq)
  have e: "system_run system_init as = Some sys \<and> resource_mutex sys \<noteq> Undefined_behaviour
        \<and> stage_of sys t = Reading \<and> active_readers (lock sys) = 1 \<longrightarrow>
        resource_mutex sys = Mutex None
        \<and> (\<exists>sys'. system_step sys (Continue t) = Some sys'
               \<and> resource_mutex sys' = Undefined_behaviour)"
    using last_reader_unlock [of sys t] reachable_consistent [of as sys] by blast
  have f: "system_run system_init as = Some sys \<and> 1 \<le> active_readers (lock sys)
        \<and> system_run sys bs = Some later \<and> resource_mutex later \<noteq> Undefined_behaviour \<longrightarrow>
        1 \<le> active_readers (lock later)"
    using readers_stay_run [of sys bs later] reachable_consistent [of as sys] by blast
  have g: "system_run system_init as = Some sys \<and> resource_mutex sys = Mutex (Some u) \<longrightarrow>
        stage_of sys u = Writing"
    using reachable_consistent [of as sys] by (auto simp: consistent_def)
  show ?thesis by (intro conjI a b c d e f g)
qed

theorem fair_read_unlock_unowned_witness:
  "system_run system_init [Reader 1, Continue 1]
     = Some \<lparr>lock = \<lparr>request_queue = [], active_readers = 1, writer_active_fair = False,
                      granted = [0], next_request = 1\<rparr>,
             resource_mutex = Mutex None, stage_of = (\<lambda>t. Idle)(1 := Reading)\<rparr>
   \<and> system_run system_init [Reader 1, Continue 1, Continue 1]
     = Some \<lparr>lock = \<lparr>request_queue = [], active_readers = 0, writer_active_fair = False,
                      granted = [0], next_request = 1\<rparr>,
             resource_mutex = Undefined_behaviour, stage_of = (\<lambda>t. Idle)(1 := Idle)\<rparr>
   \<and> (\<exists>sys'. system_step
                \<lparr>lock = \<lparr>request_queue = [], active_readers = 1, writer_active_fair = False,
                          granted = [0], next_request = 1\<rparr>,
                 resource_mutex = Mutex None, stage_of = (\<lambda>t. Idle)(1 := Reading)\<rparr>
                (Continue 1) = Some sys'
          \<and> resource_mutex sys' = Undefined_behaviour)
   \<and> system_run system_init [Writer 2, Continue 2]
     = Some \<lparr>lock = \<lparr>request_queue = [], active_readers = 0, writer_active_fair = True,
                      granted = [0], next_request = 1\<rparr>,
             resource_mutex = Mutex (Some 2), stage_of = (\<lambda>t. Idle)(2 := Writing)\<rparr>"
proof -
  let ?sys = "\<lparr>lock = \<lparr>request_queue = [], active_readers = 1, writer_active_fair = False,
                      granted = [0], next_request = 1\<rparr>,
             resource_mutex = Mutex None, stage_of = (\<lambda>t. Idle)(1 := Reading)\<rparr>"
  have s1: "system_step system_init (Reader 1)
      = Some \<lparr>lock = \<lparr>request_queue = [], active_readers = 1, writer_active_fair = False,
                      granted = [0], next_request = 1\<rparr>,
             resource_mutex = Mutex None, stage_of = (\<lambda>t. Idle)(1 := Awaiting_read 0)\<rparr>"
    by (simp add: system_step_def system_init_def advance_def fair_init_def
          fair_read_lock_enter_def push_request_def process_queue_eq is_read_def
          perform_all_Cons)
  have s2: "system_step \<lparr>lock = \<lparr>request_queue = [], active_readers = 1, writer_active_fair = False,
                      granted = [0], next_request = 1\<rparr>,
             resource_mutex = Mutex None, stage_of = (\<lambda>t. Idle)(1 := Awaiting_read 0)\<rparr>
         (Continue 1) = Some ?sys"
    by (simp add: system_step_def advance_def fair_read_lock_admit_def)
  have s3: "system_step ?sys (Continue 1)
      = Some \<lparr>lock = \<lparr>request_queue = [], active_readers = 0, writer_active_fair = False,
                      granted = [0], next_request = 1\<rparr>,
             resource_mutex = Undefined_behaviour, stage_of = (\<lambda>t. Idle)(1 := Idle)\<rparr>"
    by (simp add: system_step_def advance_def fair_read_unlock_eq process_queue_eq
          perform_all_Cons)
  from s1 s2 have r2: "system_run system_init [Reader 1, Continue 1] = Some ?sys" by simp
  from s1 s2 s3 have r3: "system_run system_init [Reader 1, Continue 1, Continue 1]
     = Some \<lparr>lock = \<lparr>request_queue = [], active_readers = 0, writer_active_fair = False,
                      granted = [0], next_request = 1\<rparr>,
             resource_mutex = Undefined_behaviour, stage_of = (\<lambda>t. Idle)(1 := Idle)\<rparr>"
    by simp
  have h: "system_run system_init [Reader 1, Continue 1] = Some ?sys
        \<and> resource_mutex ?sys \<noteq> Undefined_behaviour
        \<and> stage_of ?sys 1 = Reading \<and> active_readers (lock ?sys) = 1"
    using r2 by simp
  note inst = fair_read_unlock_unowned
    [where as = "[Reader 1, Continue 1]" and sys = ?sys and t = 1 and s = fair_init
       and r = 0 and bs = "[]" and later = ?sys and u = 1]
  from inst have "system_run system_init [Reader 1, Continue 1] = Some ?sys
        \<and> resource_mutex ?sys \<noteq> Undefined_behaviour
        \<and> stage_of ?sys 1 = Reading \<and> active_readers (lock ?sys) = 1 \<longrightarrow>
        resource_mutex ?sys = Mutex None
        \<and> (\<exists>sys'. system_step ?sys (Continue 1) = Some sys'
               \<and> resource_mutex sys' = Undefined_behaviour)"
    by (rule conjunct2 [THEN conjunct2, THEN conjunct2, THEN conjunct2, THEN conjunct1])
  from this h have "resource_mutex ?sys = Mutex None
        \<and> (\<exists>sys'. system_step ?sys (Continue 1) = Some sys'
               \<and> resource_mutex sys' = Undefined_behaviour)"
    by (rule mp)
  then have "\<exists>sys'. system_step ?sys (Continue 1) = Some sys'
               \<and> resource_mutex sys' = Undefined_behaviour"
    by (rule conjunct2)
  note last = this
  let ?w = "\<lparr>lock = \<lparr>request_queue = [], active_readers = 0, writer_active_fair = True,
                      granted = [0], next_request = 1\<rparr>,
             resource_mutex = Mutex (Some 2), stage_of = (\<lambda>t. Idle)(2 := Writing)\<rparr>"
  have w1: "system_step system_init (Writer 2)
      = Some \<lparr>lock = \<lparr>request_queue = [], active_readers = 0, writer_active_fair = True,
                      granted = [0], next_request = 1\<rparr>,
             resource_mutex = Mutex None, stage_of = (\<lambda>t. Idle)(2 := Awaiting_write 0)\<rparr>"
    by (simp add: system_step_def system_init_def advance_def fair_init_def
          fair_write_lock_enter_def push_request_def process_queue_eq is_read_def
          perform_all_Cons)
  have w2: "system_step \<lparr>lock = \<lparr>request_queue = [], active_readers = 0, writer_active_fair = True,
                      granted = [0], next_request = 1\<rparr>,
             resource_mutex = Mutex None, stage_of = (\<lambda>t. Idle)(2 := Awaiting_write 0)\<rparr>
         (Continue 2) = Some ?w"
    by (simp add: system_step_def advance_def fair_write_lock_admit_def perform_all_Cons)
  from w1 w2 have rw: "system_run system_init [Writer 2, Continue 2] = Some ?w" by simp
  have hw: "system_run system_init [Writer 2, Continue 2] = Some ?w
        \<and> resource_mutex ?w = Mutex (Some 2)"
    using rw by simp
  note instw = fair_read_unlock_unowned
    [where as = "[Writer 2, Continue 2]" and sys = ?w and t = 2 and s = fair_init
       and r = 0 and bs = "[]" and later = ?w and u = 2]
  from instw have "system_run system_init [Writer 2, Continue 2] = Some ?w
        \<and> resource_mutex ?w = Mutex (Some 2) \<longrightarrow> stage_of ?w 2 = Writing"
    by (rule conjunct2 [THEN conjunct2, THEN conjunct2, THEN conjunct2, THEN conjunct2,
          THEN conjunct2])
  from this hw have "stage_of ?w 2 = Writing" by (rule mp)
  from r2 r3 last rw show ?thesis by (intro conjI)
qed

section \<open>Locks held in the critical section\<close>

text \<open>
  C9 as stated: an admitted thread holds no lock inside the critical section.
  In readers_writers.cpp a writer (thread \<open>1\<close>) that calls \<open>write_lock\<close> on the
  free lock is admitted and returns owning \<open>resource_mutex\<close>.
\<close>

theorem critical_section_lock_counterexample:
  "wp_write_lock_call wp_init []
     = Some (\<lparr>reader_count = 0, writer_active = True, waiting_writers = 0\<rparr>, [Resource_lock])
   \<and> perform_all 1 (Mutex None) [Resource_lock] = Mutex (Some 1)"
  by (simp add: wp_write_lock_call_def wp_write_lock_enter_def wp_write_lock_admit_def
        wp_init_def perform_all_def)

lemma perform_all_suspended [simp]:
  "perform_all t Caller_suspended es = Caller_suspended"
  by (induction es) (simp_all add: perform_all_def)

lemma perform_all_other:
  "u \<noteq> t \<Longrightarrow>
     perform_all u (Mutex (Some t)) es = Mutex (Some t)
     \<or> perform_all u (Mutex (Some t)) es = Caller_suspended
     \<or> perform_all u (Mutex (Some t)) es = Undefined_behaviour"
proof (induction es)
  case Nil
  then show ?case by simp
next
  case (Cons e es)
  then show ?case by (cases e) (simp_all add: perform_all_Cons)
qed

lemma within_Some:
  "within sys t pl x = Some sys' \<longleftrightarrow>
     perform_all t (resource sys) (snd x) \<noteq> Caller_suspended
     \<and> sys' = sys\<lparr>bookkeeping := fst x,
                   resource := perform_all t (resource sys) (snd x),
                   place_of := (place_of sys)(t := pl)\<rparr>"
  by (auto simp: within_def split: mutex_state.splits)


lemma readers_update:
  "{u. ((place_of sys)(t := pl)) u = Has_read_access}
     = (if pl = Has_read_access then insert t {u. place_of sys u = Has_read_access}
        else {u. place_of sys u = Has_read_access} - {t})"
  by auto

lemma readers_guardedI:
  assumes "finite {t. place_of sys t = Has_read_access}"
    and "reader_count (bookkeeping sys) = int (card {t. place_of sys t = Has_read_access})"
    and "0 < reader_count (bookkeeping sys) \<Longrightarrow> \<exists>u. resource sys = Mutex (Some u)"
    and "0 < reader_count (bookkeeping sys) \<Longrightarrow> \<not> writer_active (bookkeeping sys)"
    and "\<And>t. 0 < reader_count (bookkeeping sys) \<Longrightarrow> \<not> writer_place (place_of sys t)"
    and "\<And>t. raised_flag (place_of sys t) \<Longrightarrow> writer_active (bookkeeping sys)"
    and "\<And>t u. raised_flag (place_of sys t) \<Longrightarrow> raised_flag (place_of sys u) \<Longrightarrow> t = u"
  shows "readers_guarded sys"
  unfolding readers_guarded_def using assms by blast

lemma raised_flag_writer_place: "raised_flag pl \<Longrightarrow> writer_place pl"
  by (cases pl) simp_all

text \<open>A step of thread \<open>t\<close> between two places that are neither a reader's nor
  a writer's, which leaves the count, the flag and the mutex.\<close>

lemma readers_guarded_neutral:
  fixes sys sys' :: "'a rp_lock_scheme threads"
  assumes rg: "readers_guarded sys" and d: "resource sys \<noteq> Undefined_behaviour"
    and pl: "place_of sys' = (place_of sys)(t := pl)"
    and from_pl: "place_of sys t \<noteq> Has_read_access"
    and to_pl: "pl \<noteq> Has_read_access" "\<not> writer_place pl"
    and bk: "reader_count (bookkeeping sys') = reader_count (bookkeeping sys)"
      "writer_active (bookkeeping sys') = writer_active (bookkeeping sys)"
    and rs: "resource sys' = resource sys"
  shows "readers_guarded sys'"
proof (rule readers_guardedI)
  let ?R = "{u. place_of sys u = Has_read_access}"
  let ?b = "bookkeeping sys"
  from rg d have fin: "finite ?R" and cnt: "reader_count ?b = int (card ?R)"
    and locked: "0 < reader_count ?b \<Longrightarrow> \<exists>u. resource sys = Mutex (Some u)"
    and quiet: "0 < reader_count ?b \<Longrightarrow> \<not> writer_active ?b"
    and nowriter: "\<And>u. 0 < reader_count ?b \<Longrightarrow> \<not> writer_place (place_of sys u)"
    and flag: "\<And>u. raised_flag (place_of sys u) \<Longrightarrow> writer_active ?b"
    and uniq: "\<And>u v. raised_flag (place_of sys u) \<Longrightarrow> raised_flag (place_of sys v) \<Longrightarrow> u = v"
    unfolding readers_guarded_def by blast+
  from from_pl to_pl(1) have R: "{u. place_of sys' u = Has_read_access} = ?R"
    unfolding pl by auto
  from to_pl(2) have nf: "\<not> raised_flag pl" by (auto dest: raised_flag_writer_place)
  show "finite {u. place_of sys' u = Has_read_access}" unfolding R by (rule fin)
  show "reader_count (bookkeeping sys') = int (card {u. place_of sys' u = Has_read_access})"
    unfolding R bk by (rule cnt)
  show "\<exists>u. resource sys' = Mutex (Some u)" if "0 < reader_count (bookkeeping sys')"
    using that locked unfolding bk rs by simp
  show "\<not> writer_active (bookkeeping sys')" if "0 < reader_count (bookkeeping sys')"
    using that quiet unfolding bk by simp
  show "\<not> writer_place (place_of sys' u)" if "0 < reader_count (bookkeeping sys')" for u
    using that nowriter [of u] to_pl(2) unfolding bk pl by (cases "u = t") simp_all
  show "writer_active (bookkeeping sys')" if "raised_flag (place_of sys' u)" for u
    using that flag [of u] nf unfolding bk pl by (cases "u = t") simp_all
  show "u = v" if "raised_flag (place_of sys' u)" "raised_flag (place_of sys' v)" for u v
  proof -
    from that nf have "u \<noteq> t" "v \<noteq> t" unfolding pl by auto
    with that have "raised_flag (place_of sys u)" "raised_flag (place_of sys v)"
      unfolding pl by simp_all
    then show ?thesis by (rule uniq)
  qed
qed

lemma readers_guarded_step:
  fixes c :: "'a rp_lock_scheme methods"
  assumes rg: "readers_guarded sys" and wo: "writers_own sys"
    and step: "threads_step c sys a = Some sys'"
    and rl: "\<And>s s' es. read_lock_of c s = Some (s', es) \<Longrightarrow>
               \<not> writer_active s \<and> reader_count s' = reader_count s + 1
               \<and> writer_active s' = writer_active s
               \<and> es = (if reader_count s = 0 then [Resource_lock] else [])"
    and ru: "\<And>s. reader_count (fst (read_unlock_of c s)) = reader_count s - 1
               \<and> writer_active (fst (read_unlock_of c s)) = writer_active s
               \<and> (reader_count s \<noteq> 1 \<longrightarrow> snd (read_unlock_of c s) = [])"
    and we: "\<And>s. reader_count (write_lock_enter_of c s) = reader_count s
               \<and> writer_active (write_lock_enter_of c s) = writer_active s"
    and wa: "\<And>s s' es. write_lock_admit_of c s = Some (s', es) \<Longrightarrow>
               reader_count s = 0 \<and> \<not> writer_active s
               \<and> reader_count s' = 0 \<and> writer_active s'"
    and wu: "\<And>s. reader_count (fst (write_unlock_of c s)) = reader_count s"
  shows "readers_guarded sys'"
proof (cases "resource sys' = Undefined_behaviour")
  case True
  then show ?thesis by (simp add: readers_guarded_def)
next
  case d': False
  let ?R = "{u. place_of sys u = Has_read_access}"
  let ?R' = "{u. place_of sys' u = Has_read_access}"
  let ?b = "bookkeeping sys"
  let ?b' = "bookkeeping sys'"
  from step have d: "resource sys \<noteq> Undefined_behaviour"
    by (auto simp: threads_step_def split: if_splits)
  from rg d have fin: "finite ?R" and cnt: "reader_count ?b = int (card ?R)"
    and locked: "0 < reader_count ?b \<Longrightarrow> \<exists>u. resource sys = Mutex (Some u)"
    and quiet: "0 < reader_count ?b \<Longrightarrow> \<not> writer_active ?b"
    and nowriter: "\<And>u. 0 < reader_count ?b \<Longrightarrow> \<not> writer_place (place_of sys u)"
    and flag: "\<And>u. raised_flag (place_of sys u) \<Longrightarrow> writer_active ?b"
    and uniq: "\<And>u v. raised_flag (place_of sys u) \<Longrightarrow> raised_flag (place_of sys v) \<Longrightarrow> u = v"
    unfolding readers_guarded_def by blast+
  from wo d obtain m where m: "resource sys = Mutex m"
    by (cases "resource sys") (auto simp: writers_own_def)
  from wo d have own: "\<And>u es. place_of sys u = Leaving_write es \<Longrightarrow> resource sys = Mutex (Some u)"
    by (auto simp: writers_own_def)
  show ?thesis
  proof (cases a)
    case (Reader t)
    with step d have o: "place_of sys t = Outside"
      and sys': "sys' = sys\<lparr>place_of := (place_of sys)(t := Waiting_to_read)\<rparr>"
      by (auto simp: threads_step_def split: if_splits)
    show ?thesis
      by (rule readers_guarded_neutral [OF rg d, where t = t and pl = Waiting_to_read])
         (simp_all add: sys' o)
  next
    case (Writer t)
    with step d have o: "place_of sys t = Outside"
      and sys': "sys' = sys\<lparr>bookkeeping := write_lock_enter_of c ?b,
                            place_of := (place_of sys)(t := Waiting_to_write)\<rparr>"
      by (auto simp: threads_step_def split: if_splits)
    show ?thesis
      by (rule readers_guarded_neutral [OF rg d, where t = t and pl = Waiting_to_write])
         (simp_all add: sys' o we)
  next
    case (Continue t)
    show ?thesis
    proof (cases "place_of sys t")
      case Outside
      with step Continue d show ?thesis by (simp add: threads_step_def)
    next
      case Waiting_to_read
      with step Continue d obtain x where x: "read_lock_of c ?b = Some x"
        and w: "within sys t Has_read_access x = Some sys'"
        by (auto simp: threads_step_def split: option.splits)
      let ?m = "perform_all t (resource sys) (snd x)"
      from w have ns: "?m \<noteq> Caller_suspended"
        and sys': "sys' = sys\<lparr>bookkeeping := fst x, resource := ?m,
                              place_of := (place_of sys)(t := Has_read_access)\<rparr>"
        by (simp_all add: within_Some)
      from d' sys' have nu: "?m \<noteq> Undefined_behaviour" by simp
      from x have "read_lock_of c ?b = Some (fst x, snd x)" by simp
      from rl [OF this] have nw: "\<not> writer_active ?b"
        and c1: "reader_count (fst x) = reader_count ?b + 1"
        and f1: "writer_active (fst x) = writer_active ?b"
        and es: "snd x = (if reader_count ?b = 0 then [Resource_lock] else [])"
        by simp_all
      from Waiting_to_read have tR: "t \<notin> ?R" by simp
      have R': "?R' = insert t ?R" unfolding sys' by auto
      from cnt have nonneg: "0 \<le> reader_count ?b" by simp
      have noflag: "\<not> raised_flag (place_of sys u)" for u
        using flag [of u] nw by blast
      show ?thesis
      proof (rule readers_guardedI)
        show "finite ?R'" unfolding R' using fin by simp
        show "reader_count ?b' = int (card ?R')"
          unfolding R' using fin tR cnt c1 by (simp add: sys')
        show "\<exists>u. resource sys' = Mutex (Some u)"
        proof (cases "reader_count ?b = 0")
          case True
          with es have "?m = perform t (Mutex m) Resource_lock"
            by (simp add: perform_all_Cons m)
          with ns nu have "?m = Mutex (Some t)" by (cases m) (auto split: if_splits)
          then show ?thesis by (simp add: sys')
        next
          case False
          with nonneg have "0 < reader_count ?b" by simp
          from locked [OF this] False es show ?thesis by (simp add: sys')
        qed
        show "\<not> writer_active ?b'" using nw f1 by (simp add: sys')
        show "\<not> writer_place (place_of sys' u)" for u
        proof (cases "u = t")
          case True
          then show ?thesis by (simp add: sys')
        next
          case ut: False
          have "\<not> writer_place (place_of sys u)"
          proof (cases "reader_count ?b = 0")
            case False
            with nonneg have "0 < reader_count ?b" by simp
            then show ?thesis by (rule nowriter)
          next
            case True
            show ?thesis
            proof (cases "place_of sys u")
              case (Leaving_write fs)
              from own [OF this] m have "m = Some u" by simp
              with True es ut have "?m = Caller_suspended"
                by (simp add: perform_all_Cons m)
              with ns show ?thesis by simp
            qed (use noflag [of u] in simp_all)
          qed
          with ut show ?thesis by (simp add: sys')
        qed
        show "writer_active ?b'" if "raised_flag (place_of sys' u)" for u
        proof -
          from that have "raised_flag (place_of sys u)"
            by (cases "u = t") (simp_all add: sys')
          with noflag show ?thesis by blast
        qed
        show "u = v" if "raised_flag (place_of sys' u)" "raised_flag (place_of sys' v)" for u v
        proof -
          from that(1) have "raised_flag (place_of sys u)"
            by (cases "u = t") (simp_all add: sys')
          with noflag show ?thesis by blast
        qed
      qed
    next
      case Has_read_access
      with step Continue d have
        w: "within sys t Outside (read_unlock_of c ?b) = Some sys'"
        by (simp add: threads_step_def)
      let ?x = "read_unlock_of c ?b"
      let ?m = "perform_all t (resource sys) (snd ?x)"
      from w have sys': "sys' = sys\<lparr>bookkeeping := fst ?x, resource := ?m,
                              place_of := (place_of sys)(t := Outside)\<rparr>"
        by (simp_all add: within_Some)
      from ru [of ?b] have c1: "reader_count (fst ?x) = reader_count ?b - 1"
        and f1: "writer_active (fst ?x) = writer_active ?b"
        and es: "reader_count ?b \<noteq> 1 \<Longrightarrow> snd ?x = []"
        by simp_all
      from Has_read_access have tR: "t \<in> ?R" by simp
      have R': "?R' = ?R - {t}" unfolding sys' by auto
      from tR fin have "card ?R \<noteq> 0" by auto
      with cnt have pos: "0 < reader_count ?b" by simp
      have noflag: "\<not> raised_flag (place_of sys u)" for u
        using nowriter [OF pos, of u] by (auto dest: raised_flag_writer_place)
      show ?thesis
      proof (rule readers_guardedI)
        show "finite ?R'" unfolding R' using fin by simp
        show "reader_count ?b' = int (card ?R')"
          unfolding R' using fin tR cnt c1 pos by (simp add: sys')
        assume "0 < reader_count ?b'"
        with c1 have more: "reader_count ?b \<noteq> 1" by (simp add: sys')
        from es [OF more] locked [OF pos] show "\<exists>u. resource sys' = Mutex (Some u)"
          by (simp add: sys')
        from quiet [OF pos] f1 show "\<not> writer_active ?b'" by (simp add: sys')
        show "\<not> writer_place (place_of sys' u)" for u
          using nowriter [OF pos, of u] by (cases "u = t") (simp_all add: sys')
      next
        show "writer_active ?b'" if "raised_flag (place_of sys' u)" for u
        proof -
          from that have "raised_flag (place_of sys u)"
            by (cases "u = t") (simp_all add: sys')
          with noflag show ?thesis by blast
        qed
        show "u = v" if "raised_flag (place_of sys' u)" "raised_flag (place_of sys' v)" for u v
        proof -
          from that(1) have "raised_flag (place_of sys u)"
            by (cases "u = t") (simp_all add: sys')
          with noflag show ?thesis by blast
        qed
      qed
    next
      case Waiting_to_write
      with step Continue d obtain x where
        x: "write_lock_admit_of c ?b = Some x"
        and sys': "sys' = sys\<lparr>bookkeeping := fst x,
                     place_of := (place_of sys)(t := Admitted_to_write (snd x))\<rparr>"
        by (auto simp: threads_step_def split: option.splits)
      from x have "write_lock_admit_of c ?b = Some (fst x, snd x)" by simp
      from wa [OF this] have c0: "reader_count ?b = 0" and nw: "\<not> writer_active ?b"
        and c1: "reader_count (fst x) = 0" and f1: "writer_active (fst x)"
        by simp_all
      have R': "?R' = ?R" unfolding sys' using Waiting_to_write by auto
      have noflag: "\<not> raised_flag (place_of sys u)" for u
        using flag [of u] nw by blast
      have only: "u = t" if "raised_flag (place_of sys' u)" for u
      proof (rule ccontr)
        assume "u \<noteq> t"
        with that have "raised_flag (place_of sys u)" by (simp add: sys')
        with noflag show False by blast
      qed
      show ?thesis
      proof (rule readers_guardedI)
        show "finite ?R'" unfolding R' by (rule fin)
        show "reader_count ?b' = int (card ?R')"
          unfolding R' using cnt c0 c1 by (simp add: sys')
        show "writer_active ?b'" for u using f1 by (simp add: sys')
        show "u = v" if "raised_flag (place_of sys' u)" "raised_flag (place_of sys' v)" for u v
          using only [OF that(1)] only [OF that(2)] by simp
      qed (simp_all add: sys' c1)
    next
      case (Admitted_to_write es)
      with step Continue d have
        w: "within sys t Has_write_access (?b, es) = Some sys'"
        by (simp add: threads_step_def)
      let ?m = "perform_all t (resource sys) es"
      from w have sys': "sys' = sys\<lparr>bookkeeping := ?b, resource := ?m,
                              place_of := (place_of sys)(t := Has_write_access)\<rparr>"
        by (simp_all add: within_Some)
      have R': "?R' = ?R" unfolding sys' using Admitted_to_write by auto
      have zero: "\<not> 0 < reader_count ?b"
        using nowriter [of t] Admitted_to_write by auto
      have same: "raised_flag (place_of sys' u) = raised_flag (place_of sys u)" for u
        using Admitted_to_write by (cases "u = t") (simp_all add: sys')
      show ?thesis
      proof (rule readers_guardedI)
        show "finite ?R'" unfolding R' by (rule fin)
        show "reader_count ?b' = int (card ?R')"
          unfolding R' using cnt by (simp add: sys')
        show "writer_active ?b'" if "raised_flag (place_of sys' u)" for u
          using that flag [of u] unfolding same by (simp add: sys')
        show "u = v" if "raised_flag (place_of sys' u)" "raised_flag (place_of sys' v)" for u v
          using that unfolding same by (rule uniq)
      qed (use zero in \<open>simp_all add: sys'\<close>)
    next
      case Has_write_access
      with step Continue d have
        sys': "sys' = sys\<lparr>bookkeeping := fst (write_unlock_of c ?b),
                 place_of := (place_of sys)
                   (t := Leaving_write (snd (write_unlock_of c ?b)))\<rparr>"
        by (simp add: threads_step_def Let_def)
      have R': "?R' = ?R" unfolding sys' using Has_write_access by auto
      have zero: "\<not> 0 < reader_count ?b"
        using nowriter [of t] Has_write_access by auto
      have none: "\<not> raised_flag (place_of sys' u)" for u
      proof (cases "u = t")
        case True
        then show ?thesis by (simp add: sys')
      next
        case False
        show ?thesis
        proof
          assume "raised_flag (place_of sys' u)"
          with False have "raised_flag (place_of sys u)" by (simp add: sys')
          moreover from Has_write_access have "raised_flag (place_of sys t)" by simp
          ultimately have "u = t" by (rule uniq)
          with False show False by simp
        qed
      qed
      show ?thesis
      proof (rule readers_guardedI)
        show "finite ?R'" unfolding R' by (rule fin)
        show "reader_count ?b' = int (card ?R')"
          unfolding R' using cnt wu [of ?b] by (simp add: sys')
        show "writer_active ?b'" if "raised_flag (place_of sys' u)" for u
          using that none by blast
        show "u = v" if "raised_flag (place_of sys' u)" "raised_flag (place_of sys' v)" for u v
          using that none by blast
      qed (use zero wu [of ?b] in \<open>simp_all add: sys'\<close>)
    next
      case (Leaving_write es)
      with step Continue d have
        w: "within sys t Outside (?b, es) = Some sys'"
        by (simp add: threads_step_def)
      let ?m = "perform_all t (resource sys) es"
      from w have sys': "sys' = sys\<lparr>bookkeeping := ?b, resource := ?m,
                              place_of := (place_of sys)(t := Outside)\<rparr>"
        by (simp_all add: within_Some)
      have R': "?R' = ?R" unfolding sys' using Leaving_write by auto
      have zero: "\<not> 0 < reader_count ?b"
        using nowriter [of t] Leaving_write by auto
      have same: "raised_flag (place_of sys' u) = raised_flag (place_of sys u)" for u
        using Leaving_write by (cases "u = t") (simp_all add: sys')
      show ?thesis
      proof (rule readers_guardedI)
        show "finite ?R'" unfolding R' by (rule fin)
        show "reader_count ?b' = int (card ?R')"
          unfolding R' using cnt by (simp add: sys')
        show "writer_active ?b'" if "raised_flag (place_of sys' u)" for u
          using that flag [of u] unfolding same by (simp add: sys')
        show "u = v" if "raised_flag (place_of sys' u)" "raised_flag (place_of sys' v)" for u v
          using that unfolding same by (rule uniq)
      qed (use zero in \<open>simp_all add: sys'\<close>)
    qed
  qed
qed

lemma writers_own_within:
  assumes wo: "writers_own sys" and d: "resource sys \<noteq> Undefined_behaviour"
    and w: "within sys t pl x = Some sys'"
    and pl: "pl = Outside \<or> pl = Has_read_access
             \<or> pl = Has_write_access \<and> snd x = [Resource_lock]"
  shows "writers_own sys'"
proof (cases "resource sys' = Undefined_behaviour")
  case True
  then show ?thesis by (simp add: writers_own_def)
next
  case d': False
  let ?m = "perform_all t (resource sys) (snd x)"
  from w have ns: "?m \<noteq> Caller_suspended"
    and sys': "sys' = sys\<lparr>bookkeeping := fst x, resource := ?m,
                          place_of := (place_of sys)(t := pl)\<rparr>"
    by (simp_all add: within_Some)
  from d' sys' have nu: "?m \<noteq> Undefined_behaviour" by simp
  from wo d obtain m where m: "resource sys = Mutex m"
    by (cases "resource sys") (auto simp: writers_own_def)
  from wo d have own: "\<And>u. place_of sys u = Has_write_access
        \<or> (\<exists>es. place_of sys u = Leaving_write es) \<Longrightarrow> resource sys = Mutex (Some u)"
    and adm: "\<And>u es. place_of sys u = Admitted_to_write es \<Longrightarrow> es = [Resource_lock]"
    by (auto simp: writers_own_def)
  have "resource sys' = Mutex (Some u)"
    if u: "place_of sys' u = Has_write_access \<or> (\<exists>es. place_of sys' u = Leaving_write es)"
    for u
  proof (cases "u = t")
    case True
    with u pl sys' have x: "snd x = [Resource_lock]" by auto
    show ?thesis
    proof (cases m)
      case None
      with x m sys' True show ?thesis by (simp add: perform_all_Cons)
    next
      case (Some v)
      with x m ns nu show ?thesis by (simp add: perform_all_Cons split: if_splits)
    qed
  next
    case False
    with u sys' have "place_of sys u = Has_write_access
        \<or> (\<exists>es. place_of sys u = Leaving_write es)" by simp
    from own [OF this] have r: "resource sys = Mutex (Some u)" .
    from False have "t \<noteq> u" by simp
    from perform_all_other [OF this, of "snd x"] ns nu r
    have "?m = Mutex (Some u)" by simp
    with sys' show ?thesis by simp
  qed
  moreover have "es = [Resource_lock]" if "place_of sys' u = Admitted_to_write es" for u es
  proof -
    from that pl sys' have "place_of sys u = Admitted_to_write es"
      by (cases "u = t") auto
    then show ?thesis by (rule adm)
  qed
  ultimately show ?thesis using ns sys' by (simp add: writers_own_def)
qed

lemma writers_own_step:
  assumes wo: "writers_own sys" and step: "threads_step c sys a = Some sys'"
    and lk: "\<And>s s' es. write_lock_admit_of c s = Some (s', es) \<Longrightarrow> es = [Resource_lock]"
  shows "writers_own sys'"
proof -
  from step have d: "resource sys \<noteq> Undefined_behaviour"
    by (auto simp: threads_step_def split: if_splits)
  from wo d have ns: "resource sys \<noteq> Caller_suspended"
    and own: "\<And>u. place_of sys u = Has_write_access
        \<or> (\<exists>es. place_of sys u = Leaving_write es) \<Longrightarrow> resource sys = Mutex (Some u)"
    and adm: "\<And>u es. place_of sys u = Admitted_to_write es \<Longrightarrow> es = [Resource_lock]"
    by (auto simp: writers_own_def)
  show ?thesis
  proof (cases a)
    case (Reader t)
    with step d have o: "place_of sys t = Outside"
      and sys': "sys' = sys\<lparr>place_of := (place_of sys)(t := Waiting_to_read)\<rparr>"
      by (auto simp: threads_step_def split: if_splits)
    from ns own adm o show ?thesis by (auto simp: writers_own_def sys')
  next
    case (Writer t)
    with step d have o: "place_of sys t = Outside"
      and sys': "sys' = sys\<lparr>bookkeeping := write_lock_enter_of c (bookkeeping sys),
                            place_of := (place_of sys)(t := Waiting_to_write)\<rparr>"
      by (auto simp: threads_step_def split: if_splits)
    from ns own adm o show ?thesis by (auto simp: writers_own_def sys')
  next
    case (Continue t)
    show ?thesis
    proof (cases "place_of sys t")
      case Outside
      with step Continue d show ?thesis by (simp add: threads_step_def)
    next
      case Waiting_to_read
      with step Continue d obtain x where
        "within sys t Has_read_access x = Some sys'"
        by (auto simp: threads_step_def split: option.splits)
      with wo d show ?thesis by (rule writers_own_within) simp
    next
      case Has_read_access
      with step Continue d have
        "within sys t Outside (read_unlock_of c (bookkeeping sys)) = Some sys'"
        by (simp add: threads_step_def)
      with wo d show ?thesis by (rule writers_own_within) simp
    next
      case Waiting_to_write
      with step Continue d obtain x where
        x: "write_lock_admit_of c (bookkeeping sys) = Some x"
        and sys': "sys' = sys\<lparr>bookkeeping := fst x,
                     place_of := (place_of sys)(t := Admitted_to_write (snd x))\<rparr>"
        by (auto simp: threads_step_def split: option.splits)
      from x have "snd x = [Resource_lock]" by (cases x) (auto dest: lk)
      with ns own adm Waiting_to_write show ?thesis by (auto simp: writers_own_def sys')
    next
      case (Admitted_to_write es)
      with step Continue d have
        w: "within sys t Has_write_access (bookkeeping sys, es) = Some sys'"
        by (simp add: threads_step_def)
      from adm [OF Admitted_to_write] have "es = [Resource_lock]" .
      with writers_own_within [OF wo d w] show ?thesis by simp
    next
      case Has_write_access
      with step Continue d have
        sys': "sys' = sys\<lparr>bookkeeping := fst (write_unlock_of c (bookkeeping sys)),
                 place_of := (place_of sys)
                   (t := Leaving_write (snd (write_unlock_of c (bookkeeping sys))))\<rparr>"
        by (simp add: threads_step_def Let_def)
      from ns own adm Has_write_access show ?thesis by (auto simp: writers_own_def sys')
    next
      case (Leaving_write es)
      with step Continue d have
        "within sys t Outside (bookkeeping sys, es) = Some sys'"
        by (simp add: threads_step_def)
      with wo d show ?thesis by (rule writers_own_within) simp
    qed
  qed
qed

lemma writers_own_run:
  assumes lk: "\<And>s s' es. write_lock_admit_of c s = Some (s', es) \<Longrightarrow> es = [Resource_lock]"
  shows "writers_own sys \<Longrightarrow> threads_run c sys as = Some sys' \<Longrightarrow> writers_own sys'"
proof (induction as arbitrary: sys)
  case Nil
  then show ?case by simp
next
  case (Cons a as)
  from Cons.prems(2) obtain sys1 where s1: "threads_step c sys a = Some sys1"
    "threads_run c sys1 as = Some sys'"
    by (auto split: option.splits)
  from writers_own_step [OF Cons.prems(1) s1(1) lk] s1(2) show ?case by (rule Cons.IH)
qed

lemma writers_own_init: "writers_own (threads_init s)"
  by (simp add: writers_own_def threads_init_def)


lemma readers_guarded_init:
  "reader_count s = 0 \<Longrightarrow> readers_guarded (threads_init s)"
  by (simp add: readers_guarded_def threads_init_def)

lemma guarded_run:
  fixes c :: "'a rp_lock_scheme methods"
  assumes rl: "\<And>s s' es. read_lock_of c s = Some (s', es) \<Longrightarrow>
               \<not> writer_active s \<and> reader_count s' = reader_count s + 1
               \<and> writer_active s' = writer_active s
               \<and> es = (if reader_count s = 0 then [Resource_lock] else [])"
    and ru: "\<And>s. reader_count (fst (read_unlock_of c s)) = reader_count s - 1
               \<and> writer_active (fst (read_unlock_of c s)) = writer_active s
               \<and> (reader_count s \<noteq> 1 \<longrightarrow> snd (read_unlock_of c s) = [])"
    and we: "\<And>s. reader_count (write_lock_enter_of c s) = reader_count s
               \<and> writer_active (write_lock_enter_of c s) = writer_active s"
    and wa: "\<And>s s' es. write_lock_admit_of c s = Some (s', es) \<Longrightarrow>
               reader_count s = 0 \<and> \<not> writer_active s
               \<and> reader_count s' = 0 \<and> writer_active s'"
    and wu: "\<And>s. reader_count (fst (write_unlock_of c s)) = reader_count s"
    and lk: "\<And>s s' es. write_lock_admit_of c s = Some (s', es) \<Longrightarrow> es = [Resource_lock]"
  shows "readers_guarded sys \<Longrightarrow> writers_own sys \<Longrightarrow> threads_run c sys as = Some sys' \<Longrightarrow>
         readers_guarded sys' \<and> writers_own sys'"
proof (induction as arbitrary: sys)
  case Nil
  then show ?case by simp
next
  case (Cons a as)
  from Cons.prems(3) obtain sys1 where s1: "threads_step c sys a = Some sys1"
    "threads_run c sys1 as = Some sys'"
    by (auto split: option.splits)
  have "readers_guarded sys1"
    using Cons.prems(1) Cons.prems(2) s1(1) rl ru we wa wu by (rule readers_guarded_step)
  moreover have "writers_own sys1"
    using Cons.prems(2) s1(1) lk by (rule writers_own_step)
  ultimately show ?case using s1(2) by (rule Cons.IH)
qed

lemma wp_reachable:
  assumes "threads_run wp_methods (threads_init wp_init) as = Some sys"
  shows "readers_guarded sys \<and> writers_own sys"
proof (rule guarded_run [OF _ _ _ _ _ _ _ _ assms])
  show "readers_guarded (threads_init wp_init)"
    by (rule readers_guarded_init) (simp add: wp_init_def)
  show "writers_own (threads_init wp_init)" by (rule writers_own_init)
qed (auto simp: wp_methods_def wp_read_lock_def wp_read_unlock_def wp_write_lock_enter_def
       wp_write_lock_admit_def wp_write_unlock_def Let_def split: if_splits)

lemma rp_reachable:
  assumes "threads_run rp_methods (threads_init rp_init) as = Some sys"
  shows "readers_guarded sys \<and> writers_own sys"
proof (rule guarded_run [OF _ _ _ _ _ _ _ _ assms])
  show "readers_guarded (threads_init rp_init)"
    by (rule readers_guarded_init) (simp add: rp_init_def)
  show "writers_own (threads_init rp_init)" by (rule writers_own_init)
qed (auto simp: rp_methods_def rp_read_lock_def rp_read_unlock_def
       rp_write_lock_def rp_write_unlock_def Let_def split: if_splits)

text \<open>What ownership gives at the two steps of \<open>write_unlock\<close>.\<close>

lemma owner_write_unlock:
  assumes d: "resource sys = Mutex (Some t)" and p: "place_of sys t = Has_write_access"
    and es: "\<exists>ns. snd (write_unlock_of c (bookkeeping sys)) = Resource_unlock # ns
               \<and> (\<forall>e\<in>set ns. e \<noteq> Resource_lock \<and> e \<noteq> Resource_unlock)"
  shows "\<exists>later. threads_run c sys [Continue t, Continue t] = Some later
           \<and> resource later = Mutex None \<and> place_of later t = Outside"
proof -
  from es obtain ns where ns: "snd (write_unlock_of c (bookkeeping sys)) = Resource_unlock # ns"
    and q: "\<forall>e\<in>set ns. e \<noteq> Resource_lock \<and> e \<noteq> Resource_unlock"
    by blast
  have quiet: "perform_all t (Mutex None) ns = Mutex None" using q
  proof (induction ns)
    case Nil
    then show ?case by simp
  next
    case (Cons e ns)
    then show ?case by (cases e) (simp_all add: perform_all_Cons)
  qed
  let ?mid = "sys\<lparr>bookkeeping := fst (write_unlock_of c (bookkeeping sys)),
                  place_of := (place_of sys)(t := Leaving_write (Resource_unlock # ns))\<rparr>"
  have one: "threads_step c sys (Continue t) = Some ?mid"
    using d p ns by (simp add: threads_step_def Let_def)
  have two: "threads_step c ?mid (Continue t)
      = Some (?mid\<lparr>bookkeeping := bookkeeping ?mid, resource := Mutex None,
                   place_of := (place_of ?mid)(t := Outside)\<rparr>)"
    using d quiet by (simp add: threads_step_def within_def perform_all_Cons)
  from one two show ?thesis by simp
qed

lemma fair_writers_own_step:
  assumes wo: "fair_writers_own sys" and step: "system_step sys a = Some sys'"
  shows "fair_writers_own sys'"
proof (cases "resource_mutex sys' = Undefined_behaviour")
  case True
  then show ?thesis by (simp add: fair_writers_own_def)
next
  case d': False
  from step have d: "resource_mutex sys \<noteq> Undefined_behaviour"
    by (auto simp: system_step_def split: if_splits)
  from wo d obtain m where m: "resource_mutex sys = Mutex m"
    by (cases "resource_mutex sys") (auto simp: fair_writers_own_def)
  from wo d have own: "\<And>u. stage_of sys u = Writing \<Longrightarrow> m = Some u"
    using m by (auto simp: fair_writers_own_def)
  have "\<exists>t st r. advance sys t st r = Some sys' \<and> (st = Writing \<longrightarrow> snd r = [Resource_lock])"
  proof (cases a)
    case (Reader t)
    with step d have "advance sys t (Awaiting_read (next_request (lock sys)))
        (fair_read_lock_enter (lock sys)) = Some sys'"
      by (auto simp: system_step_def split: if_splits)
    then show ?thesis by blast
  next
    case (Writer t)
    with step d have "advance sys t (Awaiting_write (next_request (lock sys)))
        (fair_write_lock_enter (lock sys)) = Some sys'"
      by (auto simp: system_step_def split: if_splits)
    then show ?thesis by blast
  next
    case (Continue t)
    show ?thesis
    proof (cases "stage_of sys t")
      case Idle
      with step Continue d show ?thesis by (simp add: system_step_def)
    next
      case (Awaiting_read k)
      with step Continue d have "advance sys t Reading (lock sys, []) = Some sys'"
        by (auto simp: system_step_def fair_read_lock_admit_def split: if_splits)
      then show ?thesis by blast
    next
      case Reading
      with step Continue d have "advance sys t Idle (fair_read_unlock (lock sys)) = Some sys'"
        by (simp add: system_step_def)
      then show ?thesis by blast
    next
      case (Awaiting_write k)
      with step Continue d have "advance sys t Writing (lock sys, [Resource_lock]) = Some sys'"
        by (auto simp: system_step_def fair_write_lock_admit_def split: if_splits)
      then have "advance sys t Writing (lock sys, [Resource_lock]) = Some sys'
          \<and> (Writing = Writing \<longrightarrow> snd (lock sys, [Resource_lock]) = [Resource_lock])"
        by simp
      then show ?thesis by blast
    next
      case Writing
      with step Continue d have "advance sys t Idle (fair_write_unlock (lock sys)) = Some sys'"
        by (simp add: system_step_def)
      then show ?thesis by blast
    qed
  qed
  then obtain t st r where
    adv: "advance sys t st r = Some sys'"
    and st: "st = Writing \<Longrightarrow> snd r = [Resource_lock]"
    by blast
  let ?m = "perform_all t (resource_mutex sys) (snd r)"
  from adv have ns: "?m \<noteq> Caller_suspended"
    and sys': "sys' = sys\<lparr>lock := fst r, resource_mutex := ?m,
                          stage_of := (stage_of sys)(t := st)\<rparr>"
    by (simp_all add: advance_Some)
  from d' sys' have nu: "?m \<noteq> Undefined_behaviour" by simp
  have "resource_mutex sys' = Mutex (Some u)" if u: "stage_of sys' u = Writing" for u
  proof (cases "u = t")
    case True
    with u sys' have "snd r = [Resource_lock]" by (auto intro: st)
    with m ns nu sys' True show ?thesis
      by (cases m) (simp_all add: perform_all_Cons split: if_splits)
  next
    case False
    with u sys' have "stage_of sys u = Writing" by simp
    from own [OF this] m have r: "resource_mutex sys = Mutex (Some u)" by simp
    from False have "t \<noteq> u" by simp
    from perform_all_other [OF this, of "snd r"] ns nu r
    have "?m = Mutex (Some u)" by simp
    with sys' show ?thesis by simp
  qed
  with ns sys' show ?thesis by (simp add: fair_writers_own_def)
qed

lemma fair_writers_own_run:
  "fair_writers_own sys \<Longrightarrow> system_run sys as = Some sys' \<Longrightarrow> fair_writers_own sys'"
proof (induction as arbitrary: sys)
  case Nil
  then show ?case by simp
next
  case (Cons a as)
  from Cons.prems(2) obtain sys1 where s1: "system_step sys a = Some sys1"
    "system_run sys1 as = Some sys'"
    by (auto split: option.splits)
  from fair_writers_own_step [OF Cons.prems(1) s1(1)] s1(2) show ?case by (rule Cons.IH)
qed

lemma fair_writers_own_init: "fair_writers_own system_init"
  by (simp add: fair_writers_own_def system_init_def)

text \<open>
  C9, amended.  The educational lock and the monitor have no data lock: their
  admissions signal at most and lock nothing.  Nor does the fair lock for a
  reader, and a reader there never owns \<open>resource_mutex\<close>.  In
  readers_writers.cpp, in the readers-priority lock and in the fair lock an
  admitted writer locks \<open>resource_mutex\<close> before \<open>write_lock\<close> returns.  With
  threads that run \<open>reader\<close> and \<open>writer\<close> of \<open>SharedResource\<close>, in every
  execution from the initial state whose behaviour is defined a thread
  between \<open>write_lock\<close> and \<open>write_unlock\<close> owns \<open>resource_mutex\<close>, and its own
  \<open>write_unlock\<close> is what unlocks it.  In the first two classes the \<open>read_lock\<close>
  that finds \<open>reader_count = 0\<close> locks \<open>resource_mutex\<close> too, and in those
  executions the mutex is owned, by some thread and not in general by the
  reader itself, for as long as a thread is between \<open>read_lock\<close> and
  \<open>read_unlock\<close>.
\<close>

theorem critical_section_locks:
  "(\<forall>s' es. edu_read_lock s = Some (s', es) \<longrightarrow> es = [])
   \<and> (\<forall>s' es. edu_write_lock_admit s = Some (s', es) \<longrightarrow> es = [])
   \<and> (\<forall>m' es. start_read_admit m = Some (m', es) \<longrightarrow> es = [Notify_one Read_cv])
   \<and> (\<forall>m' es. start_write_admit m = Some (m', es) \<longrightarrow> es = [])
   \<and> Resource_lock \<notin> set (snd (fair_read_lock_enter f))
   \<and> (\<forall>f' es. fair_read_lock_admit k f = Some (f', es) \<longrightarrow> es = [])
   \<and> (system_run system_init frun = Some fsys \<and> stage_of fsys t = Reading \<longrightarrow>
        resource_mutex fsys \<noteq> Mutex (Some t))
   \<and> (\<forall>s' es. wp_write_lock_admit s = Some (s', es) \<longrightarrow> es = [Resource_lock])
   \<and> (\<forall>r' es. rp_write_lock r = Some (r', es) \<longrightarrow> es = [Resource_lock])
   \<and> (\<forall>f' es. fair_write_lock_admit k f = Some (f', es) \<longrightarrow> es = [Resource_lock])
   \<and> perform_all t (Mutex None) [Resource_lock] = Mutex (Some t)
   \<and> (threads_run wp_methods (threads_init wp_init) wrun = Some wsys
        \<and> resource wsys \<noteq> Undefined_behaviour \<and> place_of wsys t = Has_write_access \<longrightarrow>
        resource wsys = Mutex (Some t)
        \<and> (\<exists>later. threads_run wp_methods wsys [Continue t, Continue t] = Some later
               \<and> resource later = Mutex None \<and> place_of later t = Outside))
   \<and> (threads_run rp_methods (threads_init rp_init) rrun = Some rsys
        \<and> resource rsys \<noteq> Undefined_behaviour \<and> place_of rsys t = Has_write_access \<longrightarrow>
        resource rsys = Mutex (Some t)
        \<and> (\<exists>later. threads_run rp_methods rsys [Continue t, Continue t] = Some later
               \<and> resource later = Mutex None \<and> place_of later t = Outside))
   \<and> (system_run system_init frun = Some fsys
        \<and> resource_mutex fsys \<noteq> Undefined_behaviour \<and> stage_of fsys t = Writing \<longrightarrow>
        resource_mutex fsys = Mutex (Some t)
        \<and> (\<exists>later. system_step fsys (Continue t) = Some later
               \<and> resource_mutex later = Mutex None \<and> stage_of later t = Idle))
   \<and> snd (wp_write_unlock s) = [Resource_unlock, Notify_all Write_cv]
   \<and> snd (rp_write_unlock r) = [Resource_unlock, Notify_all Reader_cv, Notify_one Writer_cv]
   \<and> snd (fair_write_unlock f)
       = Resource_unlock # snd (process_queue (f\<lparr>writer_active_fair := False\<rparr>))
   \<and> (\<forall>s' es. wp_read_lock s = Some (s', es) \<longrightarrow>
         es = (if reader_count s = 0 then [Resource_lock] else []))
   \<and> (\<forall>r' es. rp_read_lock r = Some (r', es) \<longrightarrow>
         es = (if reader_count r = 0 then [Resource_lock] else []))
   \<and> (threads_run wp_methods (threads_init wp_init) wrun = Some wsys
        \<and> resource wsys \<noteq> Undefined_behaviour \<and> place_of wsys t = Has_read_access \<longrightarrow>
        (\<exists>u. resource wsys = Mutex (Some u)))
   \<and> (threads_run rp_methods (threads_init rp_init) rrun = Some rsys
        \<and> resource rsys \<noteq> Undefined_behaviour \<and> place_of rsys t = Has_read_access \<longrightarrow>
        (\<exists>u. resource rsys = Mutex (Some u)))"
proof -
  have e1: "(\<forall>s' es. edu_read_lock s = Some (s', es) \<longrightarrow> es = [])"
    by (auto simp: edu_read_lock_def split: if_splits)
  have e2: "(\<forall>s' es. edu_write_lock_admit s = Some (s', es) \<longrightarrow> es = [])"
    by (auto simp: edu_write_lock_admit_def split: if_splits)
  have m1: "(\<forall>m' es. start_read_admit m = Some (m', es) \<longrightarrow> es = [Notify_one Read_cv])"
    by (auto simp: start_read_admit_def split: if_splits)
  have m2: "(\<forall>m' es. start_write_admit m = Some (m', es) \<longrightarrow> es = [])"
    by (auto simp: start_write_admit_def split: if_splits)
  have f1: "Resource_lock \<notin> set (snd (fair_read_lock_enter f))"
    by (auto simp: fair_read_lock_enter_def process_queue_eq)
  have f2: "(\<forall>f' es. fair_read_lock_admit k f = Some (f', es) \<longrightarrow> es = [])"
    by (auto simp: fair_read_lock_admit_def split: if_splits)
  have f3: "(system_run system_init frun = Some fsys \<and> stage_of fsys t = Reading \<longrightarrow>
        resource_mutex fsys \<noteq> Mutex (Some t))"
    using reachable_consistent [of frun fsys] by (auto simp: consistent_def)
  have a1: "(\<forall>s' es. wp_write_lock_admit s = Some (s', es) \<longrightarrow> es = [Resource_lock])"
    by (auto simp: wp_write_lock_admit_def split: if_splits)
  have a2: "(\<forall>r' es. rp_write_lock r = Some (r', es) \<longrightarrow> es = [Resource_lock])"
    by (auto simp: rp_write_lock_def split: if_splits)
  have a3: "(\<forall>f' es. fair_write_lock_admit k f = Some (f', es) \<longrightarrow> es = [Resource_lock])"
    by (auto simp: fair_write_lock_admit_def split: if_splits)
  have a4: "perform_all t (Mutex None) [Resource_lock] = Mutex (Some t)"
    by (simp add: perform_all_Cons)
  have u1: "snd (wp_write_unlock s) = [Resource_unlock, Notify_all Write_cv]"
    by (simp add: wp_write_unlock_def)
  have u2: "snd (rp_write_unlock r) = [Resource_unlock, Notify_all Reader_cv, Notify_one Writer_cv]"
    by (simp add: rp_write_unlock_def)
  have u3: "snd (fair_write_unlock f)
       = Resource_unlock # snd (process_queue (f\<lparr>writer_active_fair := False\<rparr>))"
    by (simp add: fair_write_unlock_eq)
  have r1: "(\<forall>s' es. wp_read_lock s = Some (s', es) \<longrightarrow>
         es = (if reader_count s = 0 then [Resource_lock] else []))"
    by (auto simp: wp_read_lock_def Let_def split: if_splits)
  have r2: "(\<forall>r' es. rp_read_lock r = Some (r', es) \<longrightarrow>
         es = (if reader_count r = 0 then [Resource_lock] else []))"
    by (auto simp: rp_read_lock_def Let_def split: if_splits)
  have o1: "(threads_run wp_methods (threads_init wp_init) wrun = Some wsys
        \<and> resource wsys \<noteq> Undefined_behaviour \<and> place_of wsys t = Has_write_access \<longrightarrow>
        resource wsys = Mutex (Some t)
        \<and> (\<exists>later. threads_run wp_methods wsys [Continue t, Continue t] = Some later
               \<and> resource later = Mutex None \<and> place_of later t = Outside))"
  proof (intro impI, elim conjE)
    assume run: "threads_run wp_methods (threads_init wp_init) wrun = Some wsys"
      and d: "resource wsys \<noteq> Undefined_behaviour" and p: "place_of wsys t = Has_write_access"
    from wp_reachable [OF run] d p have own: "resource wsys = Mutex (Some t)"
      by (auto simp: writers_own_def)
    have "\<exists>later. threads_run wp_methods wsys [Continue t, Continue t] = Some later
           \<and> resource later = Mutex None \<and> place_of later t = Outside"
      using own p by (rule owner_write_unlock) (simp add: wp_methods_def wp_write_unlock_def)
    with own show "resource wsys = Mutex (Some t)
        \<and> (\<exists>later. threads_run wp_methods wsys [Continue t, Continue t] = Some later
               \<and> resource later = Mutex None \<and> place_of later t = Outside)" ..
  qed
  have o2: "(threads_run rp_methods (threads_init rp_init) rrun = Some rsys
        \<and> resource rsys \<noteq> Undefined_behaviour \<and> place_of rsys t = Has_write_access \<longrightarrow>
        resource rsys = Mutex (Some t)
        \<and> (\<exists>later. threads_run rp_methods rsys [Continue t, Continue t] = Some later
               \<and> resource later = Mutex None \<and> place_of later t = Outside))"
  proof (intro impI, elim conjE)
    assume run: "threads_run rp_methods (threads_init rp_init) rrun = Some rsys"
      and d: "resource rsys \<noteq> Undefined_behaviour" and p: "place_of rsys t = Has_write_access"
    from rp_reachable [OF run] d p have own: "resource rsys = Mutex (Some t)"
      by (auto simp: writers_own_def)
    have "\<exists>later. threads_run rp_methods rsys [Continue t, Continue t] = Some later
           \<and> resource later = Mutex None \<and> place_of later t = Outside"
      using own p by (rule owner_write_unlock) (simp add: rp_methods_def rp_write_unlock_def)
    with own show "resource rsys = Mutex (Some t)
        \<and> (\<exists>later. threads_run rp_methods rsys [Continue t, Continue t] = Some later
               \<and> resource later = Mutex None \<and> place_of later t = Outside)" ..
  qed
  have o3: "(system_run system_init frun = Some fsys
        \<and> resource_mutex fsys \<noteq> Undefined_behaviour \<and> stage_of fsys t = Writing \<longrightarrow>
        resource_mutex fsys = Mutex (Some t)
        \<and> (\<exists>later. system_step fsys (Continue t) = Some later
               \<and> resource_mutex later = Mutex None \<and> stage_of later t = Idle))"
  proof (intro impI, elim conjE)
    assume run: "system_run system_init frun = Some fsys"
      and d: "resource_mutex fsys \<noteq> Undefined_behaviour" and p: "stage_of fsys t = Writing"
    from fair_writers_own_run [OF fair_writers_own_init run] d p
    have own: "resource_mutex fsys = Mutex (Some t)"
      by (auto simp: fair_writers_own_def)
    have "system_step fsys (Continue t)
        = Some (fsys\<lparr>lock := fst (fair_write_unlock (lock fsys)), resource_mutex := Mutex None,
                      stage_of := (stage_of fsys)(t := Idle)\<rparr>)"
      using own p by (simp add: system_step_def advance_def fair_write_unlock_eq perform_all_Cons)
    then have "\<exists>later. system_step fsys (Continue t) = Some later
               \<and> resource_mutex later = Mutex None \<and> stage_of later t = Idle"
      by simp
    with own show "resource_mutex fsys = Mutex (Some t)
        \<and> (\<exists>later. system_step fsys (Continue t) = Some later
               \<and> resource_mutex later = Mutex None \<and> stage_of later t = Idle)" ..
  qed
  have g1: "(threads_run wp_methods (threads_init wp_init) wrun = Some wsys
        \<and> resource wsys \<noteq> Undefined_behaviour \<and> place_of wsys t = Has_read_access \<longrightarrow>
        (\<exists>u. resource wsys = Mutex (Some u)))"
  proof (intro impI, elim conjE)
    assume run: "threads_run wp_methods (threads_init wp_init) wrun = Some wsys"
      and d: "resource wsys \<noteq> Undefined_behaviour" and p: "place_of wsys t = Has_read_access"
    from wp_reachable [OF run] d have rg: "readers_guarded wsys" by simp
    from rg d have fin: "finite {u. place_of wsys u = Has_read_access}"
      and cnt: "reader_count (bookkeeping wsys)
                  = int (card {u. place_of wsys u = Has_read_access})"
      and locked: "0 < reader_count (bookkeeping wsys) \<longrightarrow>
                     (\<exists>u. resource wsys = Mutex (Some u))"
      unfolding readers_guarded_def by blast+
    from p have "t \<in> {u. place_of wsys u = Has_read_access}" by simp
    with fin have "card {u. place_of wsys u = Has_read_access} \<noteq> 0" by auto
    with cnt have "0 < reader_count (bookkeeping wsys)" by simp
    with locked show "\<exists>u. resource wsys = Mutex (Some u)" by (rule mp)
  qed
  have g2: "(threads_run rp_methods (threads_init rp_init) rrun = Some rsys
        \<and> resource rsys \<noteq> Undefined_behaviour \<and> place_of rsys t = Has_read_access \<longrightarrow>
        (\<exists>u. resource rsys = Mutex (Some u)))"
  proof (intro impI, elim conjE)
    assume run: "threads_run rp_methods (threads_init rp_init) rrun = Some rsys"
      and d: "resource rsys \<noteq> Undefined_behaviour" and p: "place_of rsys t = Has_read_access"
    from rp_reachable [OF run] d have rg: "readers_guarded rsys" by simp
    from rg d have fin: "finite {u. place_of rsys u = Has_read_access}"
      and cnt: "reader_count (bookkeeping rsys)
                  = int (card {u. place_of rsys u = Has_read_access})"
      and locked: "0 < reader_count (bookkeeping rsys) \<longrightarrow>
                     (\<exists>u. resource rsys = Mutex (Some u))"
      unfolding readers_guarded_def by blast+
    from p have "t \<in> {u. place_of rsys u = Has_read_access}" by simp
    with fin have "card {u. place_of rsys u = Has_read_access} \<noteq> 0" by auto
    with cnt have "0 < reader_count (bookkeeping rsys)" by simp
    with locked show "\<exists>u. resource rsys = Mutex (Some u)" by (rule mp)
  qed
  show ?thesis
    by (intro conjI e1 e2 m1 m2 f1 f2 f3 a1 a2 a3 a4 o1 o2 o3 u1 u2 u3 r1 r2 g1 g2)
qed

theorem critical_section_locks_witness:
  "threads_run wp_methods (threads_init wp_init) [Writer 1, Continue 1, Continue 1] = Some
      \<lparr>bookkeeping = \<lparr>reader_count = 0, writer_active = True, waiting_writers = 0\<rparr>,
         resource = Mutex (Some 1), place_of = (\<lambda>t. Outside)(1 := Has_write_access)\<rparr>
   \<and> (\<exists>later. threads_run wp_methods
      \<lparr>bookkeeping = \<lparr>reader_count = 0, writer_active = True, waiting_writers = 0\<rparr>,
         resource = Mutex (Some 1), place_of = (\<lambda>t. Outside)(1 := Has_write_access)\<rparr> [Continue 1, Continue 1] = Some later
          \<and> resource later = Mutex None \<and> place_of later 1 = Outside)
   \<and> threads_run rp_methods (threads_init rp_init) [Writer 1, Continue 1, Continue 1] = Some
      \<lparr>bookkeeping = \<lparr>reader_count = 0, writer_active = True\<rparr>,
         resource = Mutex (Some 1), place_of = (\<lambda>t. Outside)(1 := Has_write_access)\<rparr>
   \<and> (\<exists>later. threads_run rp_methods
      \<lparr>bookkeeping = \<lparr>reader_count = 0, writer_active = True\<rparr>,
         resource = Mutex (Some 1), place_of = (\<lambda>t. Outside)(1 := Has_write_access)\<rparr> [Continue 1, Continue 1] = Some later
          \<and> resource later = Mutex None \<and> place_of later 1 = Outside)
   \<and> system_run system_init [Writer 1, Continue 1] = Some
      \<lparr>lock = \<lparr>request_queue = [], active_readers = 0, writer_active_fair = True,
                  granted = [0], next_request = 1\<rparr>,
         resource_mutex = Mutex (Some 1), stage_of = (\<lambda>t. Idle)(1 := Writing)\<rparr>
   \<and> (\<exists>later. system_step
      \<lparr>lock = \<lparr>request_queue = [], active_readers = 0, writer_active_fair = True,
                  granted = [0], next_request = 1\<rparr>,
         resource_mutex = Mutex (Some 1), stage_of = (\<lambda>t. Idle)(1 := Writing)\<rparr> (Continue 1) = Some later
          \<and> resource_mutex later = Mutex None \<and> stage_of later 1 = Idle)
   \<and> threads_run wp_methods (threads_init wp_init) [Reader 1, Continue 1, Reader 2, Continue 2, Continue 1]
       = Some
      \<lparr>bookkeeping = \<lparr>reader_count = 1, writer_active = False, waiting_writers = 0\<rparr>,
         resource = Mutex (Some 1),
         place_of = (\<lambda>t. Outside)(1 := Has_read_access, 2 := Has_read_access, 1 := Outside)\<rparr>
   \<and> (\<exists>u. resource
      \<lparr>bookkeeping = \<lparr>reader_count = 1, writer_active = False, waiting_writers = 0\<rparr>,
         resource = Mutex (Some 1),
         place_of = (\<lambda>t. Outside)(1 := Has_read_access, 2 := Has_read_access, 1 := Outside)\<rparr> = Mutex (Some u))"
proof -
  let ?W = "\<lparr>bookkeeping = \<lparr>reader_count = 0, writer_active = True, waiting_writers = 0\<rparr>,
         resource = Mutex (Some 1), place_of = (\<lambda>t. Outside)(1 := Has_write_access)\<rparr>"
  let ?R = "\<lparr>bookkeeping = \<lparr>reader_count = 0, writer_active = True\<rparr>,
         resource = Mutex (Some 1), place_of = (\<lambda>t. Outside)(1 := Has_write_access)\<rparr>"
  let ?F = "\<lparr>lock = \<lparr>request_queue = [], active_readers = 0, writer_active_fair = True,
                  granted = [0], next_request = 1\<rparr>,
         resource_mutex = Mutex (Some 1), stage_of = (\<lambda>t. Idle)(1 := Writing)\<rparr>"
  let ?WR = "\<lparr>bookkeeping = \<lparr>reader_count = 1, writer_active = False, waiting_writers = 0\<rparr>,
         resource = Mutex (Some 1),
         place_of = (\<lambda>t. Outside)(1 := Has_read_access, 2 := Has_read_access, 1 := Outside)\<rparr>"
  note i = critical_section_locks
    [where s = wp_init and r = rp_init and m = monitor_init and f = fair_init and k = 0
       and t = 1 and wrun = "[Writer 1, Continue 1, Continue 1]" and wsys = ?W
       and rrun = "[Writer 1, Continue 1, Continue 1]" and rsys = ?R
       and frun = "[Writer 1, Continue 1]" and fsys = ?F]
  note j = critical_section_locks
    [where s = wp_init and r = rp_init and m = monitor_init and f = fair_init and k = 0
       and t = 2 and wrun = "[Reader 1, Continue 1, Reader 2, Continue 2, Continue 1]" and wsys = ?WR
       and rrun = "[Writer 1, Continue 1, Continue 1]" and rsys = ?R
       and frun = "[Writer 1, Continue 1]" and fsys = ?F]
  have w: "threads_run wp_methods (threads_init wp_init) [Writer 1, Continue 1, Continue 1]
      = Some ?W"
    by (simp add: threads_step_def threads_init_def within_def wp_methods_def wp_init_def
          wp_write_lock_enter_def wp_write_lock_admit_def perform_all_Cons)
  have r: "threads_run rp_methods (threads_init rp_init) [Writer 1, Continue 1, Continue 1]
      = Some ?R"
    by (simp add: threads_step_def threads_init_def within_def rp_methods_def rp_init_def
          rp_write_lock_def perform_all_Cons)
  have f: "system_run system_init [Writer 1, Continue 1] = Some ?F"
    by (simp add: system_step_def system_init_def advance_def fair_init_def
          fair_write_lock_enter_def fair_write_lock_admit_def push_request_def
          process_queue_eq is_read_def perform_all_Cons)
  have g: "threads_run wp_methods (threads_init wp_init)
        [Reader 1, Continue 1, Reader 2, Continue 2, Continue 1] = Some ?WR"
    by (simp add: threads_step_def threads_init_def within_def wp_methods_def wp_init_def
          wp_read_lock_def wp_read_unlock_def perform_all_Cons)
  from i have "threads_run wp_methods (threads_init wp_init) [Writer 1, Continue 1, Continue 1] = Some ?W
        \<and> resource ?W \<noteq> Undefined_behaviour \<and> place_of ?W 1 = Has_write_access \<longrightarrow>
        resource ?W = Mutex (Some 1)
        \<and> (\<exists>later. threads_run wp_methods ?W [Continue 1, Continue 1] = Some later
               \<and> resource later = Mutex None \<and> place_of later 1 = Outside)"
    by (rule conjunct2 [THEN conjunct2, THEN conjunct2, THEN conjunct2, THEN conjunct2, THEN conjunct2, THEN conjunct2, THEN conjunct2, THEN conjunct2, THEN conjunct2, THEN conjunct2, THEN conjunct1])
  moreover from w have "threads_run wp_methods (threads_init wp_init) [Writer 1, Continue 1, Continue 1] = Some ?W
        \<and> resource ?W \<noteq> Undefined_behaviour \<and> place_of ?W 1 = Has_write_access"
    by simp
  ultimately have "resource ?W = Mutex (Some 1)
        \<and> (\<exists>later. threads_run wp_methods ?W [Continue 1, Continue 1] = Some later
               \<and> resource later = Mutex None \<and> place_of later 1 = Outside)"
    by (rule mp)
  then have a: "\<exists>later. threads_run wp_methods ?W [Continue 1, Continue 1] = Some later
          \<and> resource later = Mutex None \<and> place_of later 1 = Outside"
    by (rule conjunct2)
  from i have "threads_run rp_methods (threads_init rp_init) [Writer 1, Continue 1, Continue 1] = Some ?R
        \<and> resource ?R \<noteq> Undefined_behaviour \<and> place_of ?R 1 = Has_write_access \<longrightarrow>
        resource ?R = Mutex (Some 1)
        \<and> (\<exists>later. threads_run rp_methods ?R [Continue 1, Continue 1] = Some later
               \<and> resource later = Mutex None \<and> place_of later 1 = Outside)"
    by (rule conjunct2 [THEN conjunct2, THEN conjunct2, THEN conjunct2, THEN conjunct2, THEN conjunct2, THEN conjunct2, THEN conjunct2, THEN conjunct2, THEN conjunct2, THEN conjunct2, THEN conjunct2, THEN conjunct1])
  moreover from r have "threads_run rp_methods (threads_init rp_init) [Writer 1, Continue 1, Continue 1] = Some ?R
        \<and> resource ?R \<noteq> Undefined_behaviour \<and> place_of ?R 1 = Has_write_access"
    by simp
  ultimately have "resource ?R = Mutex (Some 1)
        \<and> (\<exists>later. threads_run rp_methods ?R [Continue 1, Continue 1] = Some later
               \<and> resource later = Mutex None \<and> place_of later 1 = Outside)"
    by (rule mp)
  then have b: "\<exists>later. threads_run rp_methods ?R [Continue 1, Continue 1] = Some later
          \<and> resource later = Mutex None \<and> place_of later 1 = Outside"
    by (rule conjunct2)
  from i have "system_run system_init [Writer 1, Continue 1] = Some ?F
        \<and> resource_mutex ?F \<noteq> Undefined_behaviour \<and> stage_of ?F 1 = Writing \<longrightarrow>
        resource_mutex ?F = Mutex (Some 1)
        \<and> (\<exists>later. system_step ?F (Continue 1) = Some later
               \<and> resource_mutex later = Mutex None \<and> stage_of later 1 = Idle)"
    by (rule conjunct2 [THEN conjunct2, THEN conjunct2, THEN conjunct2, THEN conjunct2, THEN conjunct2, THEN conjunct2, THEN conjunct2, THEN conjunct2, THEN conjunct2, THEN conjunct2, THEN conjunct2, THEN conjunct2, THEN conjunct1])
  moreover from f have "system_run system_init [Writer 1, Continue 1] = Some ?F
        \<and> resource_mutex ?F \<noteq> Undefined_behaviour \<and> stage_of ?F 1 = Writing"
    by simp
  ultimately have "resource_mutex ?F = Mutex (Some 1)
        \<and> (\<exists>later. system_step ?F (Continue 1) = Some later
               \<and> resource_mutex later = Mutex None \<and> stage_of later 1 = Idle)"
    by (rule mp)
  then have c: "\<exists>later. system_step ?F (Continue 1) = Some later
          \<and> resource_mutex later = Mutex None \<and> stage_of later 1 = Idle"
    by (rule conjunct2)
  from j have "threads_run wp_methods (threads_init wp_init) [Reader 1, Continue 1, Reader 2, Continue 2, Continue 1] = Some ?WR
        \<and> resource ?WR \<noteq> Undefined_behaviour \<and> place_of ?WR 2 = Has_read_access \<longrightarrow>
        (\<exists>u. resource ?WR = Mutex (Some u))"
    by (rule conjunct2 [THEN conjunct2, THEN conjunct2, THEN conjunct2, THEN conjunct2, THEN conjunct2, THEN conjunct2, THEN conjunct2, THEN conjunct2, THEN conjunct2, THEN conjunct2, THEN conjunct2, THEN conjunct2, THEN conjunct2, THEN conjunct2, THEN conjunct2, THEN conjunct2, THEN conjunct2, THEN conjunct2, THEN conjunct1])
  moreover from g have "threads_run wp_methods (threads_init wp_init) [Reader 1, Continue 1, Reader 2, Continue 2, Continue 1] = Some ?WR
        \<and> resource ?WR \<noteq> Undefined_behaviour \<and> place_of ?WR 2 = Has_read_access"
    by simp
  ultimately have e: "(\<exists>u. resource ?WR = Mutex (Some u))"
    by (rule mp)
  from w a r b f c g e show ?thesis by (intro conjI)
qed

end
